theory Spec2Isabelle
  imports Complex_Main "HOL-Library.Multiset" "HOL-Library.Finite_Map"
begin

section \<open>Floating-point values\<close>

text \<open>
  The service computes with Go's \<^verbatim>\<open>float32\<close> (and \<^verbatim>\<open>float64\<close> inside
  \<^verbatim>\<open>math.Sqrt\<close>), which are the IEEE 754 binary formats. A value of either format is
  a finite number, one of the two infinities or a NaN. A finite value is the real number
  it denotes; the two zeros are one value, and where the sign of a zero would matter (a
  division by zero) the zero counts as positive: the divisors of the source are products
  of square roots, which are never the negative zero.
\<close>

datatype float = Fin real | PosInf | NegInf | NaN

text \<open>
  Rounding to nearest, ties to even, to a significand of \<open>p\<close> bits. Below the exponent
  \<open>emin\<close> of the smallest normal number the spacing stays that of \<open>emin\<close>
  (subnormal numbers); a rounded magnitude above the largest finite number of the format
  is an infinity.
\<close>

definition round_half_even :: "real \<Rightarrow> int" where
  "round_half_even x =
     (let n = \<lfloor>x\<rfloor>; r = x - of_int n
      in if r < 1/2 then n else if 1/2 < r then n + 1 else if even n then n else n + 1)"

definition round_prec :: "nat \<Rightarrow> int \<Rightarrow> real \<Rightarrow> real" where
  "round_prec p emin x =
     (if x = 0 then 0
      else let e = max \<lfloor>log 2 \<bar>x\<bar>\<rfloor> emin; u = 2 powi (e - int p + 1)
           in of_int (round_half_even (x / u)) * u)"

text \<open>\<^verbatim>\<open>math.MaxFloat32\<close> and \<^verbatim>\<open>math.MaxFloat64\<close>, the largest finite values.\<close>

definition MaxFloat32 :: real where
  "MaxFloat32 = (2 - 2 powi (-23)) * 2 ^ 127"

definition MaxFloat64 :: real where
  "MaxFloat64 = (2 - 2 powi (-52)) * 2 ^ 1023"

definition overflow :: "real \<Rightarrow> real \<Rightarrow> float" where
  "overflow mx r = (if mx < r then PosInf else if r < - mx then NegInf else Fin r)"

definition round32 :: "real \<Rightarrow> float" where
  "round32 x = overflow MaxFloat32 (round_prec 24 (-126) x)"

definition round64 :: "real \<Rightarrow> float" where
  "round64 x = overflow MaxFloat64 (round_prec 53 (-1022) x)"

text \<open>
  The arithmetic of \<^verbatim>\<open>float32\<close>: the exact result of finite operands is rounded;
  a NaN operand gives NaN, and so do \<open>\<infinity> - \<infinity>\<close>, \<open>0 \<times> \<infinity>\<close>, \<open>0 / 0\<close> and
  \<open>\<infinity> / \<infinity>\<close>.
\<close>

fun fneg :: "float \<Rightarrow> float" where
  "fneg (Fin x) = Fin (- x)"
| "fneg PosInf = NegInf"
| "fneg NegInf = PosInf"
| "fneg NaN = NaN"

fun add32 :: "float \<Rightarrow> float \<Rightarrow> float" where
  "add32 (Fin x) (Fin y) = round32 (x + y)"
| "add32 NaN b = NaN"
| "add32 a NaN = NaN"
| "add32 PosInf NegInf = NaN"
| "add32 NegInf PosInf = NaN"
| "add32 PosInf b = PosInf"
| "add32 a PosInf = PosInf"
| "add32 NegInf b = NegInf"
| "add32 a NegInf = NegInf"

definition sub32 :: "float \<Rightarrow> float \<Rightarrow> float" where
  "sub32 a b = add32 a (fneg b)"

text \<open>The infinity with the sign of a real number, for a number that is not zero.\<close>

definition signed_inf :: "real \<Rightarrow> float" where
  "signed_inf x = (if 0 < x then PosInf else NegInf)"

fun mul32 :: "float \<Rightarrow> float \<Rightarrow> float" where
  "mul32 (Fin x) (Fin y) = round32 (x * y)"
| "mul32 NaN b = NaN"
| "mul32 a NaN = NaN"
| "mul32 (Fin x) PosInf = (if x = 0 then NaN else signed_inf x)"
| "mul32 (Fin x) NegInf = (if x = 0 then NaN else signed_inf (- x))"
| "mul32 PosInf (Fin y) = (if y = 0 then NaN else signed_inf y)"
| "mul32 NegInf (Fin y) = (if y = 0 then NaN else signed_inf (- y))"
| "mul32 PosInf PosInf = PosInf"
| "mul32 PosInf NegInf = NegInf"
| "mul32 NegInf PosInf = NegInf"
| "mul32 NegInf NegInf = PosInf"

fun div32 :: "float \<Rightarrow> float \<Rightarrow> float" where
  "div32 (Fin x) (Fin y) =
     (if y = 0 then (if x = 0 then NaN else signed_inf x) else round32 (x / y))"
| "div32 NaN b = NaN"
| "div32 a NaN = NaN"
| "div32 (Fin x) PosInf = Fin 0"
| "div32 (Fin x) NegInf = Fin 0"
| "div32 PosInf (Fin y) = (if 0 \<le> y then PosInf else NegInf)"
| "div32 NegInf (Fin y) = (if 0 \<le> y then NegInf else PosInf)"
| "div32 PosInf b = NaN"
| "div32 NegInf b = NaN"

text \<open>
  \<^verbatim>\<open>math.Sqrt\<close>, on \<^verbatim>\<open>float64\<close>, is correctly rounded. The conversion
  \<^verbatim>\<open>float64(x)\<close> of a \<^verbatim>\<open>float32\<close> is exact, and \<^verbatim>\<open>float32(x)\<close> rounds a
  \<^verbatim>\<open>float64\<close>. \<^verbatim>\<open>math.Log\<close> and the \<^verbatim>\<open>float64\<close> division occur once, in
  the default value of \<^verbatim>\<open>ML\<close>; the logarithm is taken as correctly rounded.
\<close>

fun Sqrt :: "float \<Rightarrow> float" where
  "Sqrt (Fin x) = (if x < 0 then NaN else round64 (sqrt x))"
| "Sqrt PosInf = PosInf"
| "Sqrt NegInf = NaN"
| "Sqrt NaN = NaN"

fun float32 :: "float \<Rightarrow> float" where
  "float32 (Fin x) = round32 x"
| "float32 PosInf = PosInf"
| "float32 NegInf = NegInf"
| "float32 NaN = NaN"

definition float64 :: "float \<Rightarrow> float" where
  "float64 x = x"

fun Log :: "float \<Rightarrow> float" where
  "Log (Fin x) = (if x < 0 then NaN else if x = 0 then NegInf else round64 (ln x))"
| "Log PosInf = PosInf"
| "Log NegInf = NaN"
| "Log NaN = NaN"

fun div64 :: "float \<Rightarrow> float \<Rightarrow> float" where
  "div64 (Fin x) (Fin y) =
     (if y = 0 then (if x = 0 then NaN else signed_inf x) else round64 (x / y))"
| "div64 NaN b = NaN"
| "div64 a NaN = NaN"
| "div64 (Fin x) PosInf = Fin 0"
| "div64 (Fin x) NegInf = Fin 0"
| "div64 PosInf (Fin y) = (if 0 \<le> y then PosInf else NegInf)"
| "div64 NegInf (Fin y) = (if 0 \<le> y then NegInf else PosInf)"
| "div64 PosInf b = NaN"
| "div64 NegInf b = NaN"

text \<open>
  The comparison \<^verbatim>\<open>a < b\<close> of Go; \<^verbatim>\<open>a > b\<close> is \<open>fless b a\<close>. Every comparison
  with a NaN is false.
\<close>

fun fless :: "float \<Rightarrow> float \<Rightarrow> bool" where
  "fless (Fin x) (Fin y) = (x < y)"
| "fless NaN b = False"
| "fless a NaN = False"
| "fless NegInf NegInf = False"
| "fless NegInf b = True"
| "fless a NegInf = False"
| "fless PosInf b = False"
| "fless a PosInf = True"

text \<open>
  For the statements about ranking the type is also given a total order, which on the
  values other than NaN is the numeric order, with the infinities at the two ends, and
  which puts NaN below every other value. The code never uses it: it compares with
  \<open>fless\<close>, and the two agree whenever the left operand is not NaN.
\<close>

instantiation float :: linorder
begin

definition less_eq_float :: "float \<Rightarrow> float \<Rightarrow> bool" where
  "less_eq_float a b = (a = NaN \<or> a = b \<or> fless a b)"

definition less_float :: "float \<Rightarrow> float \<Rightarrow> bool" where
  "less_float a b = (a \<noteq> b \<and> (a = NaN \<or> fless a b))"

instance
proof
  fix x y z :: float
  show "(x < y) = (x \<le> y \<and> \<not> y \<le> x)"
    by (cases x; cases y) (auto simp: less_eq_float_def less_float_def)
  show "x \<le> x" by (simp add: less_eq_float_def)
  show "x \<le> y \<Longrightarrow> y \<le> z \<Longrightarrow> x \<le> z"
    by (cases x; cases y; cases z) (auto simp: less_eq_float_def)
  show "x \<le> y \<Longrightarrow> y \<le> x \<Longrightarrow> x = y"
    by (cases x; cases y) (auto simp: less_eq_float_def)
  show "x \<le> y \<or> y \<le> x"
    by (cases x; cases y) (auto simp: less_eq_float_def)
qed

end

lemma fless_less: "a \<noteq> NaN \<Longrightarrow> fless a b = (a < b)"
  by (cases a; cases b) (auto simp: less_float_def)

lemma fless_irrefl [simp]: "\<not> fless a a"
  by (cases a) auto

lemma fless_trans: "fless a b \<Longrightarrow> fless b c \<Longrightarrow> fless a c"
  by (cases a; cases b; cases c) auto

lemma Fin_le [simp]: "Fin x \<le> Fin y \<longleftrightarrow> x \<le> y"
  by (auto simp: less_eq_float_def)

lemma Fin_less [simp]: "Fin x < Fin y \<longleftrightarrow> x < y"
  by (auto simp: less_float_def)

section \<open>Distance primitives\<close>

text \<open>
  \<^verbatim>\<open>CosineSimilarity\<close>: one pass accumulating the dot product and the two squared
  norms, each \<^verbatim>\<open>+=\<close> a \<^verbatim>\<open>float32\<close> multiplication followed by a \<^verbatim>\<open>float32\<close>
  addition; then \<^verbatim>\<open>dotProduct / (float32(math.Sqrt(float64(normA))) *
  float32(math.Sqrt(float64(normB))))\<close>. Go may fuse \<^verbatim>\<open>x*y + z\<close> into one rounding
  on some targets; the model rounds after each operation, as the amd64 code does.
\<close>

definition cosine_step :: "float \<times> float \<Rightarrow> float \<times> float \<times> float \<Rightarrow> float \<times> float \<times> float" where
  "cosine_step = (\<lambda>(x, y) (dotProduct, normA, normB).
     (add32 dotProduct (mul32 x y), add32 normA (mul32 x x), add32 normB (mul32 y y)))"

definition CosineSimilarity :: "float list \<Rightarrow> float list \<Rightarrow> float" where
  "CosineSimilarity a b =
     (if length a \<noteq> length b \<or> length a = 0 then Fin 0
      else case fold cosine_step (zip a b) (Fin 0, Fin 0, Fin 0) of (dotProduct, normA, normB) \<Rightarrow>
        if normA = Fin 0 \<or> normB = Fin 0 then Fin 0
        else div32 dotProduct
               (mul32 (float32 (Sqrt (float64 normA))) (float32 (Sqrt (float64 normB)))))"

definition CosineDistance :: "float list \<Rightarrow> float list \<Rightarrow> float" where
  "CosineDistance a b = sub32 (Fin 1) (CosineSimilarity a b)"

definition l2_step :: "float \<times> float \<Rightarrow> float \<Rightarrow> float" where
  "l2_step = (\<lambda>(x, y) sum. let diff = sub32 x y in add32 sum (mul32 diff diff))"

definition L2Distance :: "float list \<Rightarrow> float list \<Rightarrow> float" where
  "L2Distance a b =
     (if length a \<noteq> length b \<or> length a = 0 then float32 (Fin MaxFloat32)
      else float32 (Sqrt (float64 (fold l2_step (zip a b) (Fin 0)))))"

definition DotProduct :: "float list \<Rightarrow> float list \<Rightarrow> float" where
  "DotProduct a b =
     (if length a \<noteq> length b \<or> length a = 0 then Fin 0
      else fold (\<lambda>(x, y) sum. add32 sum (mul32 x y)) (zip a b) (Fin 0))"

section \<open>Data types of the service\<close>

text \<open>
  The structs of \<^verbatim>\<open>pkg/types\<close>. Go allows the same field name in several structs;
  the record fields carry a prefix (\<open>v_\<close> for \<^verbatim>\<open>Vector\<close>, \<open>r_\<close> for
  \<^verbatim>\<open>SearchResult\<close>).
\<close>

record Metadata =
  DocumentID :: string
  ChunkIndex :: int
  Text :: string
  PageNumber :: int

record Vector =
  v_ID :: string
  v_Embedding :: "float list"
  v_Metadata :: Metadata

record SearchResult =
  r_ID :: string
  r_Score :: float
  r_Metadata :: Metadata

section \<open>The heap of Go's container/heap\<close>

text \<open>
  \<^verbatim>\<open>container/heap\<close> works on a slice through the methods \<^verbatim>\<open>Len\<close>,
  \<^verbatim>\<open>Less\<close>, \<^verbatim>\<open>Swap\<close>, \<^verbatim>\<open>Push\<close> and \<^verbatim>\<open>Pop\<close> of its element
  type. The slice is a list; \<^verbatim>\<open>Less\<close> is a parameter that sees the whole slice and
  two indices, as the method does. \<^verbatim>\<open>up\<close> and \<^verbatim>\<open>down\<close> are the two sifting
  loops of the package; \<^verbatim>\<open>(j - 1) / 2\<close> on Go's integers is \<open>0\<close> for \<open>j = 0\<close>,
  as truncating subtraction on \<open>nat\<close> gives.
\<close>

definition Swap :: "'a list \<Rightarrow> nat \<Rightarrow> nat \<Rightarrow> 'a list" where
  "Swap h i j = (h[i := h ! j])[j := h ! i]"

function up :: "('a list \<Rightarrow> nat \<Rightarrow> nat \<Rightarrow> bool) \<Rightarrow> 'a list \<Rightarrow> nat \<Rightarrow> 'a list" where
  "up Less h j =
     (let i = (j - 1) div 2
      in if i = j \<or> \<not> Less h j i then h else up Less (Swap h i j) i)"
  by pat_completeness auto
termination
  by (relation "measure (\<lambda>(Less, h, j). j)") auto

function down :: "('a list \<Rightarrow> nat \<Rightarrow> nat \<Rightarrow> bool) \<Rightarrow> 'a list \<Rightarrow> nat \<Rightarrow> nat \<Rightarrow> 'a list" where
  "down Less h i n =
     (let j1 = 2 * i + 1
      in if j1 \<ge> n then h
         else let j = (if j1 + 1 < n \<and> Less h (j1 + 1) j1 then j1 + 1 else j1)
              in if \<not> Less h j i then h else down Less (Swap h i j) j n)"
  by pat_completeness auto
termination
  by (relation "measure (\<lambda>(Less, h, i, n). n - i)") auto

text \<open>
  \<^verbatim>\<open>heap.Push\<close> appends and sifts up; \<^verbatim>\<open>heap.Pop\<close> swaps the root with the last
  element, sifts the new root down in the first \<open>n\<close> elements and removes the last
  element. \<^verbatim>\<open>heap.Pop\<close> on an empty heap panics (index out of range): \<open>None\<close>.
\<close>

definition heap_Push :: "('a list \<Rightarrow> nat \<Rightarrow> nat \<Rightarrow> bool) \<Rightarrow> 'a list \<Rightarrow> 'a \<Rightarrow> 'a list" where
  "heap_Push Less h x = up Less (h @ [x]) (length h)"

definition heap_Pop :: "('a list \<Rightarrow> nat \<Rightarrow> nat \<Rightarrow> bool) \<Rightarrow> 'a list \<Rightarrow> ('a \<times> 'a list) option" where
  "heap_Pop Less h =
     (if h = [] then None
      else let n = length h - 1; h' = down Less (Swap h 0 n) 0 n
           in Some (last h', butlast h'))"

section \<open>The brute-force index\<close>

text \<open>\<^verbatim>\<open>resultHeap\<close>: a min-heap of results ordered by \<^verbatim>\<open>Score\<close>.\<close>

definition resultHeap_Less :: "SearchResult list \<Rightarrow> nat \<Rightarrow> nat \<Rightarrow> bool" where
  "resultHeap_Less h i j = fless (r_Score (h ! i)) (r_Score (h ! j))"

record BruteForceIndex =
  vectors :: "Vector list"
  dimensions :: int

definition NewBruteForceIndex :: "int \<Rightarrow> BruteForceIndex" where
  "NewBruteForceIndex d = \<lparr>vectors = [], dimensions = d\<rparr>"

text \<open>
  \<^verbatim>\<open>Insert\<close> and \<^verbatim>\<open>InsertBatch\<close> append and return a nil error: the second
  component is the error, \<open>None\<close> for nil.
\<close>

definition BruteForce_Insert :: "BruteForceIndex \<Rightarrow> Vector \<Rightarrow> BruteForceIndex \<times> string option" where
  "BruteForce_Insert idx v = (idx\<lparr>vectors := vectors idx @ [v]\<rparr>, None)"

definition BruteForce_InsertBatch ::
  "BruteForceIndex \<Rightarrow> Vector list \<Rightarrow> BruteForceIndex \<times> int \<times> string option" where
  "BruteForce_InsertBatch idx vs = (idx\<lparr>vectors := vectors idx @ vs\<rparr>, int (length vs), None)"

definition BruteForce_Count :: "BruteForceIndex \<Rightarrow> int" where
  "BruteForce_Count idx = int (length (vectors idx))"

text \<open>The result built for a stored vector: its id, its score against the query, its metadata.\<close>

definition scored :: "float list \<Rightarrow> Vector \<Rightarrow> SearchResult" where
  "scored query v =
     \<lparr>r_ID = v_ID v, r_Score = CosineSimilarity query (v_Embedding v), r_Metadata = v_Metadata v\<rparr>"

text \<open>
  The body of the selection loop, which \<^verbatim>\<open>Search\<close>, \<^verbatim>\<open>searchChunk\<close> and
  \<^verbatim>\<open>mergeResults\<close> each spell out: push while the heap holds fewer than \<^verbatim>\<open>topK\<close>
  results, otherwise replace the root when the new score is greater. Reading
  \<^verbatim>\<open>(*h)[0]\<close> of an empty heap panics, which happens for \<^verbatim>\<open>topK <= 0\<close>.
\<close>

definition offer :: "int \<Rightarrow> SearchResult list \<Rightarrow> SearchResult \<Rightarrow> SearchResult list option" where
  "offer topK h r =
     (if int (length h) < topK then Some (heap_Push resultHeap_Less h r)
      else case h of
             [] \<Rightarrow> None
           | r0 # _ \<Rightarrow>
               if fless (r_Score r0) (r_Score r)
               then map_option (\<lambda>(_, h'). heap_Push resultHeap_Less h' r)
                      (heap_Pop resultHeap_Less h)
               else Some h)"

fun offer_all :: "int \<Rightarrow> SearchResult list \<Rightarrow> SearchResult list \<Rightarrow> SearchResult list option" where
  "offer_all topK h [] = Some h"
| "offer_all topK h (r # rs) =
     (case offer topK h r of None \<Rightarrow> None | Some h' \<Rightarrow> offer_all topK h' rs)"

text \<open>
  The extraction loop \<^verbatim>\<open>for i := len(results) - 1; i >= 0; i-- { results[i] =
  heap.Pop(h) }\<close>: the count is the heap's length at the start, and each popped result
  goes in front of the ones popped before.
\<close>

fun drain :: "nat \<Rightarrow> SearchResult list \<Rightarrow> SearchResult list \<Rightarrow> SearchResult list option" where
  "drain 0 h results = Some results"
| "drain (Suc i) h results =
     (case heap_Pop resultHeap_Less h of
        None \<Rightarrow> None
      | Some (x, h') \<Rightarrow> drain i h' (x # results))"

definition searchChunk :: "float list \<Rightarrow> Vector list \<Rightarrow> int \<Rightarrow> SearchResult list option" where
  "searchChunk query vs topK =
     (case offer_all topK [] (map (scored query) vs) of
        None \<Rightarrow> None
      | Some h \<Rightarrow> drain (length h) h [])"

definition BruteForce_Search :: "BruteForceIndex \<Rightarrow> float list \<Rightarrow> int \<Rightarrow> SearchResult list option" where
  "BruteForce_Search idx query topK =
     (if length (vectors idx) = 0 then Some []
      else case offer_all topK [] (map (scored query) (vectors idx)) of
             None \<Rightarrow> None
           | Some h \<Rightarrow> drain (length h) h [])"

definition mergeResults :: "SearchResult list list \<Rightarrow> int \<Rightarrow> SearchResult list option" where
  "mergeResults resultsChan topK =
     (case offer_all topK [] (concat resultsChan) of
        None \<Rightarrow> None
      | Some h \<Rightarrow> drain (length h) h [])"

text \<open>
  The chunks handed to the workers: worker \<open>i\<close> gets
  \<^verbatim>\<open>vectors[start:end]\<close> with \<^verbatim>\<open>start = i*chunkSize\<close> and \<^verbatim>\<open>end\<close> (here \<open>finish\<close>) capped at the length, and the launch loop
  stops at the first start index beyond the slice.
\<close>

function worker_chunks :: "Vector list \<Rightarrow> int \<Rightarrow> int \<Rightarrow> int \<Rightarrow> Vector list list" where
  "worker_chunks vs numWorkers chunkSize i =
     (if i < numWorkers
      then let start = i * chunkSize;
               finish = (if start + chunkSize > int (length vs) then int (length vs)
                         else start + chunkSize)
           in if start \<ge> int (length vs) then []
              else take (nat (finish - start)) (drop (nat start) vs)
                     # worker_chunks vs numWorkers chunkSize (i + 1)
      else [])"
  by pat_completeness auto
termination
  by (relation "measure (\<lambda>(vs, numWorkers, chunkSize, i). nat (numWorkers - i))") auto

text \<open>
  \<^verbatim>\<open>SearchConcurrent\<close>. Each worker sends its partial result on a channel that
  \<^verbatim>\<open>mergeResults\<close> reads; the order of arrival is the scheduler's choice. The model
  takes that order as the argument \<open>arrival\<close>: the worker numbers in the order their
  results arrive. A panic of a worker is a panic of the call. The buffered channel of
  \<^verbatim>\<open>numWorkers\<close> slots is an allocation, which the model leaves out; integers are
  unbounded, since \<^verbatim>\<open>len + numWorkers - 1\<close> can only wrap for a worker count
  whose channel could not be allocated.
\<close>

definition sequence_option :: "'a option list \<Rightarrow> 'a list option" where
  "sequence_option xs = (if None \<in> set xs then None else Some (map the xs))"

definition launched_chunks :: "BruteForceIndex \<Rightarrow> int \<Rightarrow> Vector list list" where
  "launched_chunks idx numWorkers =
     (let numWorkers = (if numWorkers \<le> 0 then 4 else numWorkers);
          chunkSize = (int (length (vectors idx)) + numWorkers - 1) div numWorkers
      in worker_chunks (vectors idx) numWorkers chunkSize 0)"

definition BruteForce_SearchConcurrent ::
  "BruteForceIndex \<Rightarrow> float list \<Rightarrow> int \<Rightarrow> int \<Rightarrow> nat list \<Rightarrow> SearchResult list option" where
  "BruteForce_SearchConcurrent idx query topK numWorkers arrival =
     (if length (vectors idx) = 0 then Some []
      else let partials = map (\<lambda>c. searchChunk query c topK) (launched_chunks idx numWorkers)
           in case sequence_option partials of
                None \<Rightarrow> None
              | Some ps \<Rightarrow> mergeResults (map (\<lambda>w. ps ! w) arrival) topK)"

text \<open>An arrival order is a permutation of the worker numbers.\<close>

definition arrival_order :: "nat \<Rightarrow> nat list \<Rightarrow> bool" where
  "arrival_order n arrival = (mset arrival = mset [0..<n])"


section \<open>Rounding lemmas\<close>

lemma round_half_even_near:
  assumes "\<bar>x - of_int m\<bar> < 1/2"
  shows "round_half_even x = m"
proof -
  have "\<lfloor>x\<rfloor> = m \<or> \<lfloor>x\<rfloor> = m - 1"
    using assms by linarith
  then show ?thesis
  proof
    assume f: "\<lfloor>x\<rfloor> = m"
    then have "x - of_int m < 1/2" using assms by linarith
    with f show ?thesis by (simp add: round_half_even_def Let_def)
  next
    assume f: "\<lfloor>x\<rfloor> = m - 1"
    then have "x < of_int m" by linarith
    then have "1/2 < x - of_int (m - 1)" using assms by simp
    with f show ?thesis by (simp add: round_half_even_def Let_def)
  qed
qed

lemma round_half_even_of_int [simp]: "round_half_even (of_int m) = m"
  by (rule round_half_even_near) simp

lemma floor_log2_eq:
  assumes "2 powi e \<le> x" "x < 2 powi (e + 1)"
  shows "\<lfloor>log 2 x\<rfloor> = e"
proof -
  have pos: "0 < x" using assms(1) by (smt (verit) zero_less_power_int)
  have a: "2 powi e = (2::real) powr (of_int e)" for e :: int
    by (simp add: powr_real_of_int')
  have "of_int e \<le> log 2 x"
    using assms(1) pos by (simp add: a le_log_iff)
  moreover have "log 2 x < of_int (e + 1)"
    using assms(2) pos by (simp add: a log_less_iff)
  ultimately show ?thesis by linarith
qed

lemma round_prec_eq:
  assumes "2 powi e \<le> \<bar>x\<bar>" "\<bar>x\<bar> < 2 powi (e + 1)" "emin \<le> e"
  shows "round_prec p emin x =
           of_int (round_half_even (x / 2 powi (e - int p + 1))) * 2 powi (e - int p + 1)"
proof -
  have "x \<noteq> 0" using assms(1) by (smt (verit) zero_less_power_int)
  moreover have "\<lfloor>log 2 \<bar>x\<bar>\<rfloor> = e" using assms(1,2) by (rule floor_log2_eq)
  ultimately show ?thesis using assms(3) by (simp add: round_prec_def Let_def max_def)
qed

lemma round_prec_0 [simp]: "round_prec p emin 0 = 0"
  by (simp add: round_prec_def)

lemma round_prec_exact:
  assumes "2 powi e \<le> \<bar>x\<bar>" "\<bar>x\<bar> < 2 powi (e + 1)" "emin \<le> e"
    and "x / 2 powi (e - int p + 1) = of_int m"
  shows "round_prec p emin x = x"
proof -
  have u: "(2::real) powi (e - int p + 1) \<noteq> 0" by simp
  have "round_prec p emin x = of_int m * 2 powi (e - int p + 1)"
    using round_prec_eq [OF assms(1,2,3), of p] by (simp add: assms(4))
  also have "\<dots> = x" using assms(4) u by (metis nonzero_divide_eq_eq)
  finally show ?thesis .
qed

lemma round_prec_near:
  assumes "2 powi e \<le> \<bar>x\<bar>" "\<bar>x\<bar> < 2 powi (e + 1)" "emin \<le> e"
    and "\<bar>x / 2 powi (e - int p + 1) - of_int m\<bar> < 1/2"
  shows "round_prec p emin x = of_int m * 2 powi (e - int p + 1)"
  using round_prec_eq [OF assms(1,2,3), of p] round_half_even_near [OF assms(4)] by simp

lemma round_prec_pow2:
  assumes "emin \<le> e" "0 < p"
  shows "round_prec p emin (2 powi e) = 2 powi e"
proof (rule round_prec_exact [where e = e and m = "2 ^ (p - 1)"])
  show "2 powi e \<le> \<bar>(2::real) powi e\<bar>" by simp
  show "\<bar>(2::real) powi e\<bar> < 2 powi (e + 1)" by (simp add: power_int_add)
  show "emin \<le> e" by fact
  have "e = (e - int p + 1) + int (p - 1)" using assms(2) by simp
  then have "(2::real) powi e = 2 powi ((e - int p + 1) + int (p - 1))" by simp
  also have "\<dots> = 2 powi (e - int p + 1) * 2 powi int (p - 1)"
    by (rule power_int_add) simp
  finally have "(2::real) powi e / 2 powi (e - int p + 1) = 2 powi int (p - 1)" by simp
  then show "(2::real) powi e / 2 powi (e - int p + 1) = of_int (2 ^ (p - 1))"
    by simp
qed

lemma MaxFloat32_bounds: "2 ^ 127 < MaxFloat32" "MaxFloat32 < 2 ^ 128"
  by (simp_all add: MaxFloat32_def power_int_minus)

lemma overflow_Fin: "\<bar>r\<bar> \<le> mx \<Longrightarrow> overflow mx r = Fin r"
  by (auto simp: overflow_def)

lemma round32_0 [simp]: "round32 0 = Fin 0"
  by (simp add: round32_def overflow_def MaxFloat32_def power_int_minus)

lemma round64_0 [simp]: "round64 0 = Fin 0"
  by (simp add: round64_def overflow_def MaxFloat64_def power_int_minus)

lemma round32_pow2:
  assumes "n \<le> 127"
  shows "round32 (2 ^ n) = Fin (2 ^ n)"
proof -
  have "round_prec 24 (-126) (2 powi int n) = 2 powi int n"
    by (rule round_prec_pow2) simp_all
  then have r: "round_prec 24 (-126) (2 ^ n) = 2 ^ n" by simp
  have "(2::real) ^ n \<le> 2 ^ 127" using assms by (intro power_increasing) simp_all
  then have "\<bar>(2::real) ^ n\<bar> \<le> MaxFloat32" using MaxFloat32_bounds(1) by simp
  then show ?thesis unfolding round32_def r by (rule overflow_Fin)
qed

lemma round32_pow2_overflow:
  assumes "128 \<le> n"
  shows "round32 (2 ^ n) = PosInf"
proof -
  have "round_prec 24 (-126) (2 powi int n) = 2 powi int n"
    by (rule round_prec_pow2) simp_all
  then have r: "round_prec 24 (-126) (2 ^ n) = 2 ^ n" by simp
  have "(2::real) ^ 128 \<le> 2 ^ n" using assms by (intro power_increasing) simp_all
  then have "MaxFloat32 < 2 ^ n" using MaxFloat32_bounds(2) by linarith
  then show ?thesis unfolding round32_def r by (simp add: overflow_def)
qed

lemma round32_1 [simp]: "round32 1 = Fin 1"
  using round32_pow2 [of 0] by simp

lemma round32_2 [simp]: "round32 2 = Fin 2"
  using round32_pow2 [of 1] by simp

lemma round64_pow2:
  assumes "n \<le> 1023"
  shows "round64 (2 ^ n) = Fin (2 ^ n)"
proof -
  have "round_prec 53 (-1022) (2 powi int n) = 2 powi int n"
    by (rule round_prec_pow2) simp_all
  then have r: "round_prec 53 (-1022) (2 ^ n) = 2 ^ n" by simp
  have "(2::real) ^ n \<le> 2 ^ 1023" using assms by (intro power_increasing) simp_all
  moreover have "(2::real) ^ 1023 \<le> MaxFloat64"
    by (simp add: MaxFloat64_def power_int_minus)
  ultimately have "\<bar>(2::real) ^ n\<bar> \<le> MaxFloat64" by simp
  then show ?thesis unfolding round64_def r by (rule overflow_Fin)
qed

lemma round64_1 [simp]: "round64 1 = Fin 1"
  using round64_pow2 [of 0] by simp

lemma round32_normal:
  assumes "round_prec 24 (-126) x = r" "\<bar>r\<bar> \<le> 2"
  shows "round32 x = Fin r"
proof -
  have "(2::real) \<le> 2 ^ 127" by simp
  then have "\<bar>r\<bar> \<le> MaxFloat32" using assms(2) MaxFloat32_bounds(1) by linarith
  then show ?thesis unfolding round32_def assms(1) by (rule overflow_Fin)
qed

lemma round64_normal:
  assumes "round_prec 53 (-1022) x = r" "\<bar>r\<bar> \<le> 2"
  shows "round64 x = Fin r"
proof -
  have "(2::real) \<le> 2 ^ 1023" by simp
  moreover have "(2::real) ^ 1023 \<le> MaxFloat64"
    by (simp add: MaxFloat64_def power_int_minus)
  ultimately have "\<bar>r\<bar> \<le> MaxFloat64" using assms(2) by linarith
  then show ?thesis unfolding round64_def assms(1) by (rule overflow_Fin)
qed

section \<open>Evaluating the similarity on concrete vectors\<close>

lemma sqrt2_f64: "Sqrt (Fin 2) = Fin (6369051672525773 / 4503599627370496)"
proof -
  have lo: "6369051672525773 - 1/2 < sqrt 2 * 4503599627370496"
  proof -
    have "((6369051672525773 - 1/2) / 4503599627370496)\<^sup>2 < (2::real)"
      by (simp add: power2_eq_square)
    then have "(6369051672525773 - 1/2) / 4503599627370496 < sqrt 2" by (rule real_less_rsqrt)
    then show ?thesis by (simp add: field_simps)
  qed
  have hi: "sqrt 2 * 4503599627370496 < 6369051672525773 + 1/2"
  proof -
    have "(2::real) < ((6369051672525773 + 1/2) / 4503599627370496)\<^sup>2"
      by (simp add: power2_eq_square)
    then have "sqrt 2 < (6369051672525773 + 1/2) / 4503599627370496"
      by (intro real_less_lsqrt) simp_all
    then show ?thesis by (simp add: field_simps)
  qed
  have b1: "1 \<le> sqrt 2" by simp
  have b2: "sqrt 2 < 2" by (intro real_less_lsqrt) simp_all
  have u: "(2::real) powi (0 - int 53 + 1) = 1 / 4503599627370496"
    by (simp add: power_int_minus)
  have "round_prec 53 (-1022) (sqrt 2) = of_int 6369051672525773 * 2 powi (0 - int 53 + 1)"
  proof (rule round_prec_near)
    show "2 powi 0 \<le> \<bar>sqrt 2\<bar>" using b1 by simp
    show "\<bar>sqrt 2\<bar> < 2 powi (0 + 1)" using b2 by simp
    show "(-1022::int) \<le> 0" by simp
    have "\<bar>sqrt 2 * 4503599627370496 - 6369051672525773\<bar> < 1/2"
      using lo hi by linarith
    then show "\<bar>sqrt 2 / 2 powi (0 - int 53 + 1) - of_int 6369051672525773\<bar> < 1/2"
      unfolding u by simp
  qed
  then have "round_prec 53 (-1022) (sqrt 2) = 6369051672525773 / 4503599627370496"
    unfolding u by simp
  then have "round64 (sqrt 2) = Fin (6369051672525773 / 4503599627370496)"
    by (rule round64_normal) simp
  then show ?thesis by simp
qed

lemma sqrt2_f32:
  "float32 (Fin (6369051672525773 / 4503599627370496)) = Fin (11863283 / 8388608)"
proof -
  have "round_prec 24 (-126) (6369051672525773 / 4503599627370496)
          = of_int 11863283 * 2 powi (0 - int 24 + 1)"
    by (rule round_prec_near) (simp_all add: power_int_minus)
  then have "round_prec 24 (-126) (6369051672525773 / 4503599627370496) = 11863283 / 8388608"
    by (simp add: power_int_minus)
  then have "round32 (6369051672525773 / 4503599627370496) = Fin (11863283 / 8388608)"
    by (rule round32_normal) simp
  then show ?thesis by simp
qed

lemma sqrt2_sq_f32:
  "mul32 (Fin (11863283 / 8388608)) (Fin (11863283 / 8388608)) = Fin (16777215 / 8388608)"
proof -
  have "round_prec 24 (-126) ((11863283 / 8388608) * (11863283 / 8388608))
          = of_int 16777215 * 2 powi (0 - int 24 + 1)"
    by (rule round_prec_near) (simp_all add: power_int_minus)
  then have "round_prec 24 (-126) ((11863283 / 8388608) * (11863283 / 8388608))
          = 16777215 / 8388608"
    by (simp add: power_int_minus)
  then have "round32 ((11863283 / 8388608) * (11863283 / 8388608)) = Fin (16777215 / 8388608)"
    by (rule round32_normal) simp
  then show ?thesis by simp
qed

lemma two_div_f32: "div32 (Fin 2) (Fin (16777215 / 8388608)) = Fin (8388609 / 8388608)"
proof -
  have "round_prec 24 (-126) (2 / (16777215 / 8388608))
          = of_int 8388609 * 2 powi (0 - int 24 + 1)"
    by (rule round_prec_near) (simp_all add: power_int_minus)
  then have "round_prec 24 (-126) (2 / (16777215 / 8388608)) = 8388609 / 8388608"
    by (simp add: power_int_minus)
  then have "round32 (2 / (16777215 / 8388608)) = Fin (8388609 / 8388608)"
    by (rule round32_normal) simp
  then show ?thesis by simp
qed

lemma cos11: "CosineSimilarity [Fin 1, Fin 1] [Fin 1, Fin 1] = Fin (8388609 / 8388608)"
proof -
  have f: "fold cosine_step (zip [Fin 1, Fin 1] [Fin 1, Fin 1]) (Fin 0, Fin 0, Fin 0)
             = (Fin 2, Fin 2, Fin 2)"
    by (simp add: cosine_step_def)
  have "CosineSimilarity [Fin 1, Fin 1] [Fin 1, Fin 1]
          = div32 (Fin 2) (mul32 (float32 (Sqrt (float64 (Fin 2)))) (float32 (Sqrt (float64 (Fin 2)))))"
    unfolding CosineSimilarity_def f by simp
  also have "\<dots> = Fin (8388609 / 8388608)"
    unfolding float64_def sqrt2_f64 sqrt2_f32 sqrt2_sq_f32 two_div_f32 ..
  finally show ?thesis .
qed

lemma fold_cosine_step_normA_zero:
  "length a = length b \<Longrightarrow> \<forall>x\<in>set a. x = Fin 0 \<Longrightarrow>
     fst (snd (fold cosine_step (zip a b) (d, Fin 0, nb))) = Fin 0"
  by (induction a b arbitrary: d nb rule: list_induct2) (simp_all add: cosine_step_def)

lemma fold_cosine_step_normB_zero:
  "length a = length b \<Longrightarrow> \<forall>y\<in>set b. y = Fin 0 \<Longrightarrow>
     snd (snd (fold cosine_step (zip a b) (d, na, Fin 0))) = Fin 0"
  by (induction a b arbitrary: d na rule: list_induct2) (simp_all add: cosine_step_def)

lemma CosineSimilarity_zero_norm:
  assumes "length a = length b" "(\<forall>x\<in>set a. x = Fin 0) \<or> (\<forall>y\<in>set b. y = Fin 0)"
  shows "CosineSimilarity a b = Fin 0"
proof -
  obtain d na nb where f: "fold cosine_step (zip a b) (Fin 0, Fin 0, Fin 0) = (d, na, nb)"
    by (metis prod_cases3)
  have "na = Fin 0 \<or> nb = Fin 0"
    using assms fold_cosine_step_normA_zero [of a b "Fin 0" "Fin 0"]
      fold_cosine_step_normB_zero [of a b "Fin 0" "Fin 0"]
    by (auto simp: f)
  then show ?thesis by (auto simp: CosineSimilarity_def f)
qed

lemma CosineSimilarity_degenerate:
  "length a \<noteq> length b \<or> a = [] \<Longrightarrow> CosineSimilarity a b = Fin 0"
  by (auto simp: CosineSimilarity_def)

lemma Sqrt_1 [simp]: "Sqrt (Fin 1) = Fin 1"
  by simp

lemma cos_10_01: "CosineSimilarity [Fin 1, Fin 0] [Fin 0, Fin 1] = Fin 0"
  by (simp add: CosineSimilarity_def cosine_step_def float64_def)

lemma cos_10_10: "CosineSimilarity [Fin 1, Fin 0] [Fin 1, Fin 0] = Fin 1"
  by (simp add: CosineSimilarity_def cosine_step_def float64_def)

lemma cos_01_01: "CosineSimilarity [Fin 0, Fin 1] [Fin 0, Fin 1] = Fin 1"
  by (simp add: CosineSimilarity_def cosine_step_def float64_def)

lemma cos_01_10: "CosineSimilarity [Fin 0, Fin 1] [Fin 1, Fin 0] = Fin 0"
  by (simp add: CosineSimilarity_def cosine_step_def float64_def)

lemma dist_evals:
  "CosineDistance [Fin 1, Fin 0] [Fin 1, Fin 0] = Fin 0"
  "CosineDistance [Fin 0, Fin 1] [Fin 0, Fin 1] = Fin 0"
  "CosineDistance [Fin 1, Fin 0] [Fin 0, Fin 1] = Fin 1"
  "CosineDistance [Fin 0, Fin 1] [Fin 1, Fin 0] = Fin 1"
  by (simp_all add: CosineDistance_def sub32_def cos_10_10 cos_10_01 cos_01_01 cos_01_10)

text \<open>Overflow: the similarity of \<open>(2\<^sup>4\<^sup>0, 0)\<close> and \<open>(2\<^sup>1\<^sup>0\<^sup>0, 0)\<close> is NaN.\<close>

lemmas round_pow2_evals =
  round32_pow2 [of 40, simplified] round32_pow2 [of 80, simplified]
  round32_pow2_overflow [of 140, simplified] round32_pow2_overflow [of 200, simplified]
  round64_pow2 [of 40, simplified]

lemma cos_overflow: "CosineSimilarity [Fin (2 ^ 40), Fin 0] [Fin (2 ^ 100), Fin 0] = NaN"
proof -
  have f: "fold cosine_step (zip [Fin (2 ^ 40), Fin 0] [Fin (2 ^ 100), Fin 0])
             (Fin 0, Fin 0, Fin 0) = (PosInf, Fin (2 ^ 80), PosInf)"
    by (simp add: cosine_step_def round_pow2_evals)
  show ?thesis
    unfolding CosineSimilarity_def f by (simp add: float64_def round_pow2_evals signed_inf_def)
qed

lemma cos_big_01: "CosineSimilarity [Fin (2 ^ 40), Fin 0] [Fin 0, Fin 1] = Fin 0"
proof -
  have f: "fold cosine_step (zip [Fin (2 ^ 40), Fin 0] [Fin 0, Fin 1])
             (Fin 0, Fin 0, Fin 0) = (Fin 0, Fin (2 ^ 80), Fin 1)"
    by (simp add: cosine_step_def round_pow2_evals)
  show ?thesis
    unfolding CosineSimilarity_def f by (simp add: float64_def round_pow2_evals)
qed

lemma cos_big_10: "CosineSimilarity [Fin (2 ^ 40), Fin 0] [Fin 1, Fin 0] = Fin 1"
proof -
  have f: "fold cosine_step (zip [Fin (2 ^ 40), Fin 0] [Fin 1, Fin 0])
             (Fin 0, Fin 0, Fin 0) = (Fin (2 ^ 40), Fin (2 ^ 80), Fin 1)"
    by (simp add: cosine_step_def round_pow2_evals)
  show ?thesis
    unfolding CosineSimilarity_def f by (simp add: float64_def round_pow2_evals)
qed

section \<open>Properties of the heap operations\<close>

declare up.simps [simp del] down.simps [simp del]

lemma length_Swap [simp]: "length (Swap h i j) = length h"
  by (simp add: Swap_def)

lemma mset_Swap: "i < length h \<Longrightarrow> j < length h \<Longrightarrow> mset (Swap h i j) = mset h"
  unfolding Swap_def by (simp add: mset_swap)

lemma nth_Swap:
  "i < length h \<Longrightarrow> j < length h \<Longrightarrow> k < length h \<Longrightarrow>
     Swap h i j ! k = (if k = j then h ! i else if k = i then h ! j else h ! k)"
  by (simp add: Swap_def nth_list_update)

lemma nth_Swap_out:
  "i < length h \<Longrightarrow> j < length h \<Longrightarrow> length h \<le> k \<Longrightarrow> Swap h i j ! k = h ! k"
  by (simp add: Swap_def)

lemma length_up [simp]: "length (up Less h j) = length h"
proof (induction Less h j rule: up.induct)
  case (1 Less h j)
  show ?case
    using "1.IH" by (subst up.simps) (simp add: Let_def)
qed

lemma mset_up: "j < length h \<Longrightarrow> mset (up Less h j) = mset h"
proof (induction Less h j rule: up.induct)
  case (1 Less h j)
  let ?i = "(j - 1) div 2"
  have i: "?i < length h" using "1.prems" by linarith
  show ?case
  proof (cases "?i = j \<or> \<not> Less h j ?i")
    case True
    then show ?thesis by (subst up.simps) (simp add: Let_def)
  next
    case False
    then have "mset (up Less (Swap h ?i j) ?i) = mset (Swap h ?i j)"
      using "1.IH" [of ?i] i by simp
    with False i "1.prems" show ?thesis
      by (subst up.simps) (simp add: Let_def mset_Swap)
  qed
qed

definition smaller_child :: "('a list \<Rightarrow> nat \<Rightarrow> nat \<Rightarrow> bool) \<Rightarrow> 'a list \<Rightarrow> nat \<Rightarrow> nat \<Rightarrow> nat" where
  "smaller_child Less h i n =
     (if 2 * i + 2 < n \<and> Less h (2 * i + 2) (2 * i + 1) then 2 * i + 2 else 2 * i + 1)"

lemma down_rec:
  "down Less h i n =
     (if 2 * i + 1 \<ge> n \<or> \<not> Less h (smaller_child Less h i n) i then h
      else down Less (Swap h i (smaller_child Less h i n)) (smaller_child Less h i n) n)"
  by (subst down.simps) (simp add: Let_def smaller_child_def)

lemma smaller_child_bounds:
  "2 * i + 1 < n \<Longrightarrow> i < smaller_child Less h i n \<and> smaller_child Less h i n < n"
  by (simp add: smaller_child_def)

lemma down_induct [case_names stop step]:
  assumes "\<And>h i. 2 * i + 1 \<ge> n \<or> \<not> Less h (smaller_child Less h i n) i \<Longrightarrow> P h i"
    and "\<And>h i. 2 * i + 1 < n \<Longrightarrow> Less h (smaller_child Less h i n) i \<Longrightarrow>
           P (Swap h i (smaller_child Less h i n)) (smaller_child Less h i n) \<Longrightarrow> P h i"
  shows "P h i"
proof (induction "n - i" arbitrary: h i rule: less_induct)
  case less
  show ?case
  proof (cases "2 * i + 1 \<ge> n \<or> \<not> Less h (smaller_child Less h i n) i")
    case True
    then show ?thesis by (rule assms(1))
  next
    case False
    then have a: "2 * i + 1 < n" "Less h (smaller_child Less h i n) i" by auto
    have "n - smaller_child Less h i n < n - i"
      using smaller_child_bounds [OF a(1), of Less h] by linarith
    then have "P (Swap h i (smaller_child Less h i n)) (smaller_child Less h i n)"
      by (rule less.hyps)
    with a show ?thesis by (rule assms(2))
  qed
qed

lemma length_down [simp]: "length (down Less h i n) = length h"
proof (induction h i rule: down_induct [of n Less])
  case (stop h i)
  then show ?case by (subst down_rec) simp
next
  case (step h i)
  then show ?case by (subst down_rec) simp
qed

lemma mset_down: "n \<le> length h \<Longrightarrow> mset (down Less h i n) = mset h"
proof (induction h i rule: down_induct [of n Less])
  case (stop h i)
  then show ?case by (subst down_rec) simp
next
  case (step h i)
  let ?j = "smaller_child Less h i n"
  have j: "i < ?j" "?j < n" using smaller_child_bounds [OF step(1)] by auto
  have "mset (Swap h i ?j) = mset h"
    using j step.prems by (intro mset_Swap) linarith+
  with step show ?case by (subst down_rec) simp
qed

lemma nth_down_out: "n \<le> k \<Longrightarrow> n \<le> length h \<Longrightarrow> down Less h i n ! k = h ! k"
proof (induction h i rule: down_induct [of n Less])
  case (stop h i)
  then show ?case by (subst down_rec) simp
next
  case (step h i)
  let ?j = "smaller_child Less h i n"
  have j: "i < ?j" "?j < n" using smaller_child_bounds [OF step(1)] by auto
  have "Swap h i ?j ! k = h ! k"
    using j step.prems by (cases "k < length h") (simp_all add: nth_Swap nth_Swap_out)
  with step show ?case by (subst down_rec) simp
qed

lemma length_heap_Push [simp]: "length (heap_Push Less h x) = Suc (length h)"
  by (simp add: heap_Push_def)

lemma mset_heap_Push [simp]: "mset (heap_Push Less h x) = add_mset x (mset h)"
  by (simp add: heap_Push_def mset_up)

lemma heap_Pop_None: "heap_Pop Less h = None \<longleftrightarrow> h = []"
  unfolding heap_Pop_def Let_def by simp

lemma heap_Pop_Some:
  assumes "heap_Pop Less h = Some (x, h')"
  shows "mset h = add_mset x (mset h')" and "length h = Suc (length h')"
proof -
  have ne: "h \<noteq> []" using assms heap_Pop_None [of Less h] by auto
  define n where "n = length h - 1"
  define d where "d = down Less (Swap h 0 n) 0 n"
  have n: "n < length h" using ne by (simp add: n_def)
  have "heap_Pop Less h = Some (last d, butlast d)"
    unfolding heap_Pop_def Let_def d_def n_def using ne by simp
  then have x: "x = last d" "h' = butlast d" using assms by simp_all
  have ld: "length d = length h" by (simp add: d_def)
  then have dne: "d \<noteq> []" using ne by auto
  have "mset d = mset h"
    using n ne by (simp add: d_def mset_down mset_Swap)
  moreover have "mset d = add_mset (last d) (mset (butlast d))"
  proof -
    have "mset d = mset (butlast d @ [last d])" using dne by simp
    then show ?thesis by simp
  qed
  ultimately show "mset h = add_mset x (mset h')" by (simp add: x)
  show "length h = Suc (length h')" using ne ld by (simp add: x)
qed


section \<open>The HNSW index\<close>

text \<open>
  \<^verbatim>\<open>HNSWConfig\<close>, \<^verbatim>\<open>HNSWNode\<close> and \<^verbatim>\<open>HNSWIndex\<close>. Fields carry a prefix
  (\<open>c_\<close>, \<open>n_\<close>). The index owns its nodes in a Go map from id to node pointer; every
  pointer the code holds was read from that map and nodes are never removed, so a
  pointer is the key it was read at, and the map is a finite map from id to node record.
  The generator \<^verbatim>\<open>rng\<close> is the sequence of the values \<^verbatim>\<open>Float64()\<close> will return.
\<close>

record HNSWConfig =
  c_M :: int
  c_MMax :: int
  c_EfConstruction :: int
  c_EfSearch :: int
  c_ML :: float
  c_Dimensions :: int

definition DefaultHNSWConfig :: "int \<Rightarrow> HNSWConfig" where
  "DefaultHNSWConfig d =
     \<lparr>c_M = 16, c_MMax = 16 * 2, c_EfConstruction = 200, c_EfSearch = 100,
      c_ML = div64 (Fin 1) (Log (float64 (Fin 16))), c_Dimensions = d\<rparr>"

record HNSWNode =
  n_ID :: string
  n_Vector :: "float list"
  n_Metadata :: Metadata
  n_Neighbors :: "string list list"
  n_Layer :: int

record HNSWIndex =
  nodes :: "(string, HNSWNode) fmap"
  entryPoint :: string
  maxLevel :: int
  config :: HNSWConfig
  rng :: "nat \<Rightarrow> real"

definition NewHNSWIndex :: "HNSWConfig \<Rightarrow> (nat \<Rightarrow> real) \<Rightarrow> HNSWIndex" where
  "NewHNSWIndex cfg draws =
     \<lparr>nodes = fmempty, entryPoint = [], maxLevel = -1, config = cfg, rng = draws\<rparr>"

definition HNSW_Count :: "HNSWIndex \<Rightarrow> int" where
  "HNSW_Count idx = int (fcard (fmdom (nodes idx)))"

text \<open>
  \<^verbatim>\<open>randomLevel\<close>: \<^verbatim>\<open>for idx.rng.Float64() < idx.config.ML && level < 16\<close>. The draw
  comes first in the condition, so it is consumed also when the loop ends.
\<close>

function randomLevel_loop :: "float \<Rightarrow> (nat \<Rightarrow> real) \<Rightarrow> int \<Rightarrow> int \<times> (nat \<Rightarrow> real)" where
  "randomLevel_loop ml draws level =
     (if fless (Fin (draws 0)) ml \<and> level < 16
      then randomLevel_loop ml (\<lambda>n. draws (Suc n)) (level + 1)
      else (level, (\<lambda>n. draws (Suc n))))"
  by pat_completeness auto
termination
  by (relation "measure (\<lambda>(ml, draws, level). nat (16 - level))") auto

definition randomLevel :: "HNSWIndex \<Rightarrow> int \<times> (nat \<Rightarrow> real)" where
  "randomLevel idx = randomLevel_loop (c_ML (config idx)) (rng idx) 0"

text \<open>\<^verbatim>\<open>distanceNode\<close> and \<^verbatim>\<open>distanceHeap\<close>, whose \<^verbatim>\<open>Less\<close> reads the flag of the root.\<close>

record distanceNode =
  d_ID :: string
  d_Distance :: float
  d_isMaxHeap :: bool

definition distanceHeap_Less :: "distanceNode list \<Rightarrow> nat \<Rightarrow> nat \<Rightarrow> bool" where
  "distanceHeap_Less h i j =
     (if length h > 0 \<and> d_isMaxHeap (h ! 0) then fless (d_Distance (h ! j)) (d_Distance (h ! i))
      else fless (d_Distance (h ! i)) (d_Distance (h ! j)))"

text \<open>
  The greedy descent, used by \<^verbatim>\<open>Insert\<close> and \<^verbatim>\<open>Search\<close>. One pass over
  \<^verbatim>\<open>currentNode.Neighbors[l]\<close>: the slice is that of the node current when the pass
  starts; the comparison is against the node current at that moment. The state is
  \<^verbatim>\<open>currentNode\<close>, \<^verbatim>\<open>entryID\<close> and \<^verbatim>\<open>changed\<close>.
\<close>

fun greedy_pass ::
  "(string, HNSWNode) fmap \<Rightarrow> float list \<Rightarrow> string list \<Rightarrow> HNSWNode \<times> string \<times> bool
     \<Rightarrow> HNSWNode \<times> string \<times> bool" where
  "greedy_pass ns q [] st = st"
| "greedy_pass ns q (neighborID # rest) (currentNode, entryID, changed) =
     (case fmlookup ns neighborID of
        None \<Rightarrow> greedy_pass ns q rest (currentNode, entryID, changed)
      | Some neighbor \<Rightarrow>
          if fless (CosineDistance q (n_Vector neighbor)) (CosineDistance q (n_Vector currentNode))
          then greedy_pass ns q rest (neighbor, neighborID, True)
          else greedy_pass ns q rest (currentNode, entryID, changed))"

definition greedy_round ::
  "(string, HNSWNode) fmap \<Rightarrow> float list \<Rightarrow> int \<Rightarrow> HNSWNode \<times> string \<Rightarrow> HNSWNode \<times> string \<times> bool" where
  "greedy_round ns q l = (\<lambda>(currentNode, entryID).
     if l < int (length (n_Neighbors currentNode))
     then greedy_pass ns q (n_Neighbors currentNode ! nat l) (currentNode, entryID, False)
     else (currentNode, entryID, False))"


lemma greedy_pass_closer:
  "greedy_pass ns q ids (cur, eid, ch) = (cur', eid', ch') \<Longrightarrow>
     (cur' = cur
      \<or> cur' \<in> fmran' ns \<and> fless (CosineDistance q (n_Vector cur')) (CosineDistance q (n_Vector cur)))
     \<and> (ch' \<longrightarrow> ch \<or> fless (CosineDistance q (n_Vector cur')) (CosineDistance q (n_Vector cur)))"
proof (induction ids arbitrary: cur eid ch)
  case Nil
  then show ?case by simp
next
  case (Cons nid ids)
  show ?case
  proof (cases "fmlookup ns nid")
    case None
    with Cons.prems have "greedy_pass ns q ids (cur, eid, ch) = (cur', eid', ch')" by simp
    from Cons.IH [OF this] show ?thesis .
  next
    case (Some nb)
    then have ran: "nb \<in> fmran' ns" by (rule fmran'I)
    show ?thesis
    proof (cases "fless (CosineDistance q (n_Vector nb)) (CosineDistance q (n_Vector cur))")
      case True
      with Cons.prems Some have "greedy_pass ns q ids (nb, nid, True) = (cur', eid', ch')" by simp
      from Cons.IH [OF this] True ran show ?thesis by (auto dest: fless_trans)
    next
      case False
      with Cons.prems Some have "greedy_pass ns q ids (cur, eid, ch) = (cur', eid', ch')" by simp
      from Cons.IH [OF this] show ?thesis .
    qed
  qed
qed

lemma greedy_round_closer:
  assumes "greedy_round ns q l (cur, eid) = (cur', eid', True)"
  shows "cur' \<in> fmran' ns
         \<and> fless (CosineDistance q (n_Vector cur')) (CosineDistance q (n_Vector cur))"
proof -
  from assms have "greedy_pass ns q (n_Neighbors cur ! nat l) (cur, eid, False) = (cur', eid', True)"
    by (simp add: greedy_round_def split: if_splits)
  from greedy_pass_closer [OF this] show ?thesis by auto
qed

definition closer_count :: "(string, HNSWNode) fmap \<Rightarrow> float list \<Rightarrow> HNSWNode \<Rightarrow> nat" where
  "closer_count ns q cur =
     card {n \<in> fmran' ns. fless (CosineDistance q (n_Vector n)) (CosineDistance q (n_Vector cur))}"

lemma greedy_round_closer_count:
  assumes "greedy_round ns q l (cur, eid) = (cur', eid', True)"
  shows "closer_count ns q cur' < closer_count ns q cur"
proof -
  note c = greedy_round_closer [OF assms]
  let ?S = "\<lambda>c. {n \<in> fmran' ns.
              fless (CosineDistance q (n_Vector n)) (CosineDistance q (n_Vector c))}"
  have fin: "finite (?S cur)" by (simp add: fmran'_alt_def)
  have "?S cur' \<subseteq> ?S cur" using c by (auto dest: fless_trans)
  moreover have "cur' \<in> ?S cur" "cur' \<notin> ?S cur'" using c by simp_all
  ultimately have "?S cur' \<subset> ?S cur" by blast
  then have "card (?S cur') < card (?S cur)" using fin by (rule psubset_card_mono [rotated])
  then show ?thesis by (simp add: closer_count_def)
qed

text \<open>
  The loop \<^verbatim>\<open>for changed { ... }\<close> at one layer: rounds repeat while a round moved
  to a strictly closer node. It ends because the index holds finitely many nodes.
\<close>

function greedy_layer ::
  "(string, HNSWNode) fmap \<Rightarrow> float list \<Rightarrow> int \<Rightarrow> HNSWNode \<times> string \<Rightarrow> HNSWNode \<times> string" where
  "greedy_layer ns q l (currentNode, entryID) =
     (case greedy_round ns q l (currentNode, entryID) of
        (currentNode', entryID', changed) \<Rightarrow>
          if changed then greedy_layer ns q l (currentNode', entryID')
          else (currentNode', entryID'))"
  by pat_completeness auto
termination
  by (relation "measure (\<lambda>(ns, q, l, cur, eid). closer_count ns q cur)")
     (auto dest: greedy_round_closer_count greedy_round_closer_count [OF sym])

text \<open>The descent \<^verbatim>\<open>for l := from; l > downto; l--\<close>.\<close>

function descend ::
  "(string, HNSWNode) fmap \<Rightarrow> float list \<Rightarrow> int \<Rightarrow> int \<Rightarrow> HNSWNode \<times> string \<Rightarrow> HNSWNode \<times> string" where
  "descend ns q l bound st =
     (if l > bound then descend ns q (l - 1) bound (greedy_layer ns q l st) else st)"
  by pat_completeness auto
termination
  by (relation "measure (\<lambda>(ns, q, l, bound, st). nat (l - bound))") auto


text \<open>
  \<^verbatim>\<open>searchLayer\<close>. The state of its loop is the \<^verbatim>\<open>visited\<close> set, the
  \<^verbatim>\<open>candidates\<close> heap (closest at the root) and the \<^verbatim>\<open>results\<close> heap (furthest
  at the root). \<open>explore\<close> is the inner loop over the neighbours of the popped
  candidate; reading \<^verbatim>\<open>(*results)[0]\<close> of an empty heap would panic.
\<close>

type_synonym search_state = "string set \<times> distanceNode list \<times> distanceNode list"

fun explore ::
  "(string, HNSWNode) fmap \<Rightarrow> float list \<Rightarrow> int \<Rightarrow> string list \<Rightarrow> search_state
     \<Rightarrow> search_state option" where
  "explore ns query ef [] st = Some st"
| "explore ns query ef (neighborID # rest) (visited, candidates, results) =
     (if neighborID \<in> visited then explore ns query ef rest (visited, candidates, results)
      else case fmlookup ns neighborID of
        None \<Rightarrow> explore ns query ef rest (insert neighborID visited, candidates, results)
      | Some neighbor \<Rightarrow>
          let dist = CosineDistance query (n_Vector neighbor);
              asCandidate = \<lparr>d_ID = neighborID, d_Distance = dist, d_isMaxHeap = False\<rparr>;
              asResult = \<lparr>d_ID = neighborID, d_Distance = dist, d_isMaxHeap = True\<rparr>
          in if int (length results) < ef
             then explore ns query ef rest
                    (insert neighborID visited,
                     heap_Push distanceHeap_Less candidates asCandidate,
                     heap_Push distanceHeap_Less results asResult)
             else case results of
                    [] \<Rightarrow> None
                  | furthest # _ \<Rightarrow>
                      if fless dist (d_Distance furthest)
                      then (case heap_Pop distanceHeap_Less results of
                              None \<Rightarrow> None
                            | Some (_, results') \<Rightarrow>
                                explore ns query ef rest
                                  (insert neighborID visited,
                                   heap_Push distanceHeap_Less candidates asCandidate,
                                   heap_Push distanceHeap_Less results' asResult))
                      else explore ns query ef rest
                             (insert neighborID visited, candidates, results))"

definition neighbor_ids :: "(string, HNSWNode) fmap \<Rightarrow> string set" where
  "neighbor_ids ns = (\<Union>n\<in>fmran' ns. \<Union>ids\<in>set (n_Neighbors n). set ids)"

definition search_measure :: "(string, HNSWNode) fmap \<Rightarrow> search_state \<Rightarrow> nat" where
  "search_measure ns = (\<lambda>(visited, candidates, results).
     2 * card (neighbor_ids ns - visited) + length candidates)"

lemma finite_neighbor_ids: "finite (neighbor_ids ns)"
  by (simp add: neighbor_ids_def fmran'_alt_def)

lemma neighbor_ids_layer:
  "fmlookup ns x = Some n \<Longrightarrow> i < length (n_Neighbors n) \<Longrightarrow> set (n_Neighbors n ! i) \<subseteq> neighbor_ids ns"
  unfolding neighbor_ids_def by (force intro: fmran'I)

lemma card_unvisited_insert:
  assumes "x \<in> neighbor_ids ns" "x \<notin> visited"
  shows "Suc (card (neighbor_ids ns - insert x visited)) = card (neighbor_ids ns - visited)"
proof -
  have "x \<in> neighbor_ids ns - visited" using assms by simp
  moreover have "finite (neighbor_ids ns - visited)" by (simp add: finite_neighbor_ids)
  ultimately have "card (neighbor_ids ns - visited) = Suc (card (neighbor_ids ns - visited - {x}))"
    by (metis card.remove)
  moreover have "neighbor_ids ns - visited - {x} = neighbor_ids ns - insert x visited" by auto
  ultimately show ?thesis by simp
qed

lemma explore_measure:
  "explore ns query ef ids st = Some st' \<Longrightarrow> set ids \<subseteq> neighbor_ids ns \<Longrightarrow>
     search_measure ns st' \<le> search_measure ns st"
proof (induction ns query ef ids st rule: explore.induct)
  case (1 ns query ef st)
  then show ?case by simp
next
  case (2 ns query ef neighborID rest visited candidates results)
  have sub: "set rest \<subseteq> neighbor_ids ns" and mem: "neighborID \<in> neighbor_ids ns"
    using "2.prems"(2) by auto
  show ?case
  proof (cases "neighborID \<in> visited")
    case True
    with "2.prems"(1) have "explore ns query ef rest (visited, candidates, results) = Some st'"
      by simp
    from "2.IH"(1) [OF True this sub] show ?thesis .
  next
    case False
    note c = card_unvisited_insert [OF mem False]
    have step: "search_measure ns st' \<le> search_measure ns (visited, candidates, results)"
      if "explore ns query ef rest (insert neighborID visited, cands, res) = Some st'"
        and "length cands \<le> Suc (length candidates)"
        and "search_measure ns st' \<le> search_measure ns (insert neighborID visited, cands, res)"
      for cands res
      using that(2,3) c by (simp add: search_measure_def)
    show ?thesis
    proof (cases "fmlookup ns neighborID")
      case None
      with False "2.prems"(1)
      have e: "explore ns query ef rest (insert neighborID visited, candidates, results) = Some st'"
        by simp
      from "2.IH"(2) [OF False None e sub] e show ?thesis by (intro step) simp_all
    next
      case (Some neighbor)
      define dist where "dist = CosineDistance query (n_Vector neighbor)"
      define asCandidate where
        "asCandidate = \<lparr>d_ID = neighborID, d_Distance = dist, d_isMaxHeap = False\<rparr>"
      define asResult where
        "asResult = \<lparr>d_ID = neighborID, d_Distance = dist, d_isMaxHeap = True\<rparr>"
      note defs = dist_def asCandidate_def asResult_def
      show ?thesis
      proof (cases "int (length results) < ef")
        case True
        with False Some "2.prems"(1)
        have e: "explore ns query ef rest
                   (insert neighborID visited, heap_Push distanceHeap_Less candidates asCandidate,
                    heap_Push distanceHeap_Less results asResult) = Some st'"
          by (simp add: Let_def defs)
        from "2.IH"(3) [OF False Some defs True e sub] e show ?thesis by (intro step) simp_all
      next
        case full: False
        with False Some "2.prems"(1) obtain furthest tl where res: "results = furthest # tl"
          by (cases results) (simp_all add: Let_def)
        show ?thesis
        proof (cases "fless dist (d_Distance furthest)")
          case True
          with False Some full res "2.prems"(1) obtain popped results'
            where pop: "heap_Pop distanceHeap_Less results = Some (popped, results')"
            by (cases "heap_Pop distanceHeap_Less results") (auto simp: Let_def defs)
          with True False Some full res "2.prems"(1)
          have e: "explore ns query ef rest
                   (insert neighborID visited, heap_Push distanceHeap_Less candidates asCandidate,
                    heap_Push distanceHeap_Less results' asResult) = Some st'"
            by (simp add: Let_def defs)
          from "2.IH"(4) [OF False Some defs full res True pop refl e sub] e
          show ?thesis by (intro step) simp_all
        next
          case nb: False
          with False Some full res "2.prems"(1)
          have e: "explore ns query ef rest (insert neighborID visited, candidates, results) = Some st'"
            by (simp add: Let_def defs)
          from "2.IH"(5) [OF False Some defs full res nb e sub] e
          show ?thesis by (intro step) simp_all
        qed
      qed
    qed
  qed
qed


lemma search_measure_pop:
  assumes "heap_Pop Less candidates = Some (closest, candidates')"
  shows "search_measure ns (visited, candidates', results)
           < search_measure ns (visited, candidates, results)"
  using heap_Pop_Some(2) [OF assms] by (simp add: search_measure_def)

lemma search_measure_explore:
  assumes "heap_Pop Less candidates = Some (closest, candidates')"
    and "fmlookup ns (d_ID closest) = Some node"
    and "\<not> layer < 0" "\<not> int (length (n_Neighbors node)) \<le> layer"
    and "explore ns query ef (n_Neighbors node ! nat layer) (visited, candidates', results) = Some st'"
  shows "search_measure ns st' < search_measure ns (visited, candidates, results)"
proof -
  have "nat layer < length (n_Neighbors node)" using assms(3,4) by linarith
  then have "set (n_Neighbors node ! nat layer) \<subseteq> neighbor_ids ns"
    using assms(2) by (intro neighbor_ids_layer)
  from explore_measure [OF assms(5) this] search_measure_pop [OF assms(1)]
  show ?thesis by (rule le_less_trans)
qed

function searchLayer_loop ::
  "(string, HNSWNode) fmap \<Rightarrow> float list \<Rightarrow> int \<Rightarrow> int \<Rightarrow> search_state
     \<Rightarrow> distanceNode list option" where
  "searchLayer_loop ns query ef layer (visited, candidates, results) =
     (case heap_Pop distanceHeap_Less candidates of
        None \<Rightarrow> Some results
      | Some (closest, candidates') \<Rightarrow>
          if results \<noteq> [] \<and> fless (d_Distance (results ! 0)) (d_Distance closest) then Some results
          else case fmlookup ns (d_ID closest) of
                 None \<Rightarrow> searchLayer_loop ns query ef layer (visited, candidates', results)
               | Some node \<Rightarrow>
                   if layer \<ge> int (length (n_Neighbors node))
                   then searchLayer_loop ns query ef layer (visited, candidates', results)
                   else if layer < 0 then None
                   else (case explore ns query ef (n_Neighbors node ! nat layer)
                                (visited, candidates', results) of
                           None \<Rightarrow> None
                         | Some st' \<Rightarrow> searchLayer_loop ns query ef layer st'))"
  by pat_completeness auto
termination
  by (relation "measure (\<lambda>(ns, query, ef, layer, st). search_measure ns st)")
     (auto intro: search_measure_pop search_measure_explore
           dest: search_measure_pop [OF sym])

text \<open>
  The extraction of the results: popped furthest first into the slice from its end,
  which leaves the closest in front; then the slice is reversed in place.
\<close>

fun drain_distances :: "nat \<Rightarrow> distanceNode list \<Rightarrow> distanceNode list \<Rightarrow> distanceNode list option" where
  "drain_distances 0 h output = Some output"
| "drain_distances (Suc i) h output =
     (case heap_Pop distanceHeap_Less h of
        None \<Rightarrow> None
      | Some (x, h') \<Rightarrow> drain_distances i h' (x # output))"

definition searchLayer ::
  "(string, HNSWNode) fmap \<Rightarrow> float list \<Rightarrow> string \<Rightarrow> int \<Rightarrow> int \<Rightarrow> distanceNode list option" where
  "searchLayer ns query entryID ef layer =
     (case fmlookup ns entryID of
        None \<Rightarrow> Some []
      | Some entryNode \<Rightarrow>
          let entryDist = CosineDistance query (n_Vector entryNode);
              candidates = heap_Push distanceHeap_Less []
                             \<lparr>d_ID = entryID, d_Distance = entryDist, d_isMaxHeap = False\<rparr>;
              results = heap_Push distanceHeap_Less []
                          \<lparr>d_ID = entryID, d_Distance = entryDist, d_isMaxHeap = True\<rparr>
          in case searchLayer_loop ns query ef layer ({entryID}, candidates, results) of
               None \<Rightarrow> None
             | Some results' \<Rightarrow>
                 map_option rev (drain_distances (length results') results' []))"

text \<open>
  \<^verbatim>\<open>selectNeighbors\<close>: \<^verbatim>\<open>candidates[:m]\<close> panics for a negative \<open>m\<close>.
\<close>

definition selectNeighbors :: "float list \<Rightarrow> distanceNode list \<Rightarrow> int \<Rightarrow> distanceNode list option" where
  "selectNeighbors query candidates m =
     (if int (length candidates) \<le> m then Some candidates
      else if m < 0 then None
      else Some (take (nat m) candidates))"

text \<open>
  \<^verbatim>\<open>pruneConnections\<close>: the distances of the neighbours that resolve, an exchange sort
  by distance (the two nested loops), the first \<open>m\<close> ids. The result slice is made with
  capacity \<open>m\<close> after the sort, which panics for a negative \<open>m\<close>.
\<close>

record neighborDist =
  nd_id :: string
  nd_dist :: float

function sort_inner :: "neighborDist list \<Rightarrow> nat \<Rightarrow> nat \<Rightarrow> neighborDist list" where
  "sort_inner dists i j =
     (if j < length dists
      then sort_inner (if fless (nd_dist (dists ! j)) (nd_dist (dists ! i)) then Swap dists i j else dists)
             i (j + 1)
      else dists)"
  by pat_completeness auto
termination
  by (relation "measure (\<lambda>(dists, i, j). length dists - j)") (auto simp: Swap_def)

declare sort_inner.simps [simp del]

lemma length_sort_inner [simp]: "length (sort_inner dists i j) = length dists"
proof (induction dists i j rule: sort_inner.induct)
  case (1 dists i j)
  then show ?case by (subst sort_inner.simps) (auto simp: Swap_def)
qed

function sort_outer :: "neighborDist list \<Rightarrow> nat \<Rightarrow> neighborDist list" where
  "sort_outer dists i =
     (if i + 1 < length dists then sort_outer (sort_inner dists i (i + 1)) (i + 1) else dists)"
  by pat_completeness auto
termination
  by (relation "measure (\<lambda>(dists, i). length dists - i)") auto

declare sort_outer.simps [simp del]

definition neighbor_dists ::
  "(string, HNSWNode) fmap \<Rightarrow> float list \<Rightarrow> string list \<Rightarrow> neighborDist list" where
  "neighbor_dists ns nodeVector neighbors =
     concat (map (\<lambda>nid. case fmlookup ns nid of
                    None \<Rightarrow> []
                  | Some node \<Rightarrow>
                      [\<lparr>nd_id = nid, nd_dist = CosineDistance nodeVector (n_Vector node)\<rparr>])
               neighbors)"

definition pruneConnections ::
  "(string, HNSWNode) fmap \<Rightarrow> float list \<Rightarrow> string list \<Rightarrow> int \<Rightarrow> string list option" where
  "pruneConnections ns nodeVector neighbors m =
     (if int (length neighbors) \<le> m then Some neighbors
      else if m < 0 then None
      else Some (map nd_id (take (nat m) (sort_outer (neighbor_dists ns nodeVector neighbors) 0))))"

text \<open>
  Writes through a node pointer: \<open>on_node ns nid f\<close> applies \<open>f\<close> to the node stored at
  \<open>nid\<close>. The pointer \<^verbatim>\<open>node\<close> of \<^verbatim>\<open>Insert\<close> is the one stored at \<^verbatim>\<open>v.ID\<close>.
\<close>

definition on_node ::
  "(string, HNSWNode) fmap \<Rightarrow> string \<Rightarrow> (HNSWNode \<Rightarrow> HNSWNode) \<Rightarrow> (string, HNSWNode) fmap" where
  "on_node ns nid f = (case fmlookup ns nid of None \<Rightarrow> ns | Some n \<Rightarrow> fmupd nid (f n) ns)"

definition set_layer :: "int \<Rightarrow> string list \<Rightarrow> HNSWNode \<Rightarrow> HNSWNode" where
  "set_layer l ids n = n\<lparr>n_Neighbors := (n_Neighbors n)[nat l := ids]\<rparr>"

text \<open>
  The body of the loop over the selected neighbours: the edge from the new node, then
  the reverse edge when the neighbour resolves and has the layer, pruned when its list
  grew beyond \<^verbatim>\<open>mLayer\<close>.
\<close>

definition connect_one ::
  "(string, HNSWNode) fmap \<Rightarrow> Vector \<Rightarrow> int \<Rightarrow> int \<Rightarrow> distanceNode
     \<Rightarrow> (string, HNSWNode) fmap option" where
  "connect_one ns v l mLayer n =
     (let ns1 = on_node ns (v_ID v) (\<lambda>node. set_layer l (n_Neighbors node ! nat l @ [d_ID n]) node)
      in case fmlookup ns1 (d_ID n) of
           None \<Rightarrow> Some ns1
         | Some neighbor \<Rightarrow>
             if l < int (length (n_Neighbors neighbor))
             then let appended = n_Neighbors neighbor ! nat l @ [v_ID v];
                      ns2 = fmupd (d_ID n) (set_layer l appended neighbor) ns1
                  in if int (length appended) > mLayer
                     then (case pruneConnections ns2 (n_Vector neighbor) appended mLayer of
                             None \<Rightarrow> None
                           | Some pruned \<Rightarrow>
                               Some (fmupd (d_ID n) (set_layer l pruned neighbor) ns2))
                     else Some ns2
             else Some ns1)"

fun connect ::
  "(string, HNSWNode) fmap \<Rightarrow> Vector \<Rightarrow> int \<Rightarrow> int \<Rightarrow> distanceNode list
     \<Rightarrow> (string, HNSWNode) fmap option" where
  "connect ns v l mLayer [] = Some ns"
| "connect ns v l mLayer (n # rest) =
     (case connect_one ns v l mLayer n of
        None \<Rightarrow> None
      | Some ns' \<Rightarrow> connect ns' v l mLayer rest)"

text \<open>The loop \<^verbatim>\<open>for l := min(level, idx.maxLevel); l >= 0; l--\<close> of \<^verbatim>\<open>Insert\<close>.\<close>

function insert_layers ::
  "(string, HNSWNode) fmap \<Rightarrow> Vector \<Rightarrow> HNSWConfig \<Rightarrow> int \<Rightarrow> string
     \<Rightarrow> (string, HNSWNode) fmap option" where
  "insert_layers ns v cfg l entryID =
     (if l \<ge> 0
      then case searchLayer ns (v_Embedding v) entryID (c_EfConstruction cfg) l of
             None \<Rightarrow> None
           | Some neighbors \<Rightarrow>
               let mLayer = (if l = 0 then c_MMax cfg else c_M cfg)
               in (case selectNeighbors (v_Embedding v) neighbors mLayer of
                     None \<Rightarrow> None
                   | Some selectedNeighbors \<Rightarrow>
                       (case connect (on_node ns (v_ID v) (set_layer l [])) v l mLayer
                               selectedNeighbors of
                          None \<Rightarrow> None
                        | Some ns' \<Rightarrow>
                            insert_layers ns' v cfg (l - 1)
                              (if length selectedNeighbors > 0 then d_ID (selectedNeighbors ! 0)
                               else entryID)))
      else Some ns)"
  by pat_completeness auto
termination
  by (relation "measure (\<lambda>(ns, v, cfg, l, entryID). nat (l + 1))") auto

declare insert_layers.simps [simp del]

text \<open>
  \<^verbatim>\<open>Insert\<close>. The result is the new index and the returned error, which is always
  nil (\<open>None\<close>); the outer \<open>None\<close> is a run-time panic. The descent reads
  \<^verbatim>\<open>currentNode.Neighbors\<close> as soon as its loop is entered, which panics when
  \<^verbatim>\<open>idx.nodes[idx.entryPoint]\<close> is nil.
\<close>

definition HNSW_Insert :: "HNSWIndex \<Rightarrow> Vector \<Rightarrow> (HNSWIndex \<times> string option) option" where
  "HNSW_Insert idx v =
     (case randomLevel idx of (level, rng') \<Rightarrow>
        let node = \<lparr>n_ID = v_ID v, n_Vector = v_Embedding v, n_Metadata = v_Metadata v,
                    n_Neighbors = replicate (nat (level + 1)) [], n_Layer = level\<rparr>;
            ns = fmupd (v_ID v) node (nodes idx)
        in if entryPoint idx = []
           then Some (idx\<lparr>nodes := ns, entryPoint := v_ID v, maxLevel := level, rng := rng'\<rparr>, None)
           else case (if maxLevel idx > level
                      then (case fmlookup ns (entryPoint idx) of
                              None \<Rightarrow> None
                            | Some currentNode \<Rightarrow>
                                Some (snd (descend ns (v_Embedding v) (maxLevel idx) level
                                             (currentNode, entryPoint idx))))
                      else Some (entryPoint idx)) of
                  None \<Rightarrow> None
                | Some entryID \<Rightarrow>
                    (case insert_layers ns v (config idx) (min level (maxLevel idx)) entryID of
                       None \<Rightarrow> None
                     | Some ns' \<Rightarrow>
                         Some (if level > maxLevel idx
                               then idx\<lparr>nodes := ns', entryPoint := v_ID v, maxLevel := level,
                                        rng := rng'\<rparr>
                               else idx\<lparr>nodes := ns', rng := rng'\<rparr>, None)))"

text \<open>
  \<^verbatim>\<open>Search\<close>. \<^verbatim>\<open>make([]types.SearchResult, 0, topK)\<close> panics for a negative
  \<^verbatim>\<open>topK\<close>; a candidate whose node is nil is skipped.
\<close>

definition HNSW_Search :: "HNSWIndex \<Rightarrow> float list \<Rightarrow> int \<Rightarrow> SearchResult list option" where
  "HNSW_Search idx query topK =
     (if fcard (fmdom (nodes idx)) = 0 \<or> entryPoint idx = [] then Some []
      else case (if maxLevel idx > 0
                 then (case fmlookup (nodes idx) (entryPoint idx) of
                         None \<Rightarrow> None
                       | Some currentNode \<Rightarrow>
                           Some (snd (descend (nodes idx) query (maxLevel idx) 0
                                        (currentNode, entryPoint idx))))
                 else Some (entryPoint idx)) of
             None \<Rightarrow> None
           | Some entryID \<Rightarrow>
               (case searchLayer (nodes idx) query entryID (c_EfSearch (config idx)) 0 of
                  None \<Rightarrow> None
                | Some candidates \<Rightarrow>
                    if topK < 0 then None
                    else Some (concat (map (\<lambda>c. case fmlookup (nodes idx) (d_ID c) of
                                                  None \<Rightarrow> []
                                                | Some node \<Rightarrow>
                                                    [\<lparr>r_ID = d_ID c,
                                                      r_Score = CosineSimilarity query (n_Vector node),
                                                      r_Metadata = n_Metadata node\<rparr>])
                                        (take (nat topK) candidates)))))"

section \<open>The handlers\<close>

text \<open>
  \<^verbatim>\<open>Handler\<close>, \<^verbatim>\<open>HandleInsert\<close> and \<^verbatim>\<open>HandleSearch\<close>. The request is its
  method and the outcome of decoding its body; the reply is the status and the plain
  text of \<^verbatim>\<open>http.Error\<close>, the JSON insert response, the JSON object with the one
  field \<^verbatim>\<open>error\<close>, or the results of the search response (whose latency is the
  wall-clock time of the call, which the model leaves out).
\<close>

record Handler =
  h_bruteForce :: BruteForceIndex
  h_hnsw :: HNSWIndex
  h_dimensions :: int

definition NewHandler :: "int \<Rightarrow> (nat \<Rightarrow> real) \<Rightarrow> Handler" where
  "NewHandler d draws =
     \<lparr>h_bruteForce = NewBruteForceIndex d,
      h_hnsw = NewHNSWIndex (DefaultHNSWConfig d) draws,
      h_dimensions = d\<rparr>"

record InsertRequest =
  q_ID :: string
  q_Embedding :: "float list"
  q_Metadata :: Metadata

record InsertResponse =
  Success :: bool
  Message :: string

record SearchRequest =
  s_Embedding :: "float list"
  s_TopK :: int
  s_Algorithm :: string

datatype 'a body = InvalidJSON string | Decoded 'a

datatype reply =
    PlainText int string
  | JSON int InsertResponse
  | JSONError int string
  | JSONResults int "SearchResult list"

definition HandleInsert ::
  "Handler \<Rightarrow> string \<Rightarrow> InsertRequest body \<Rightarrow> (reply \<times> Handler) option" where
  "HandleInsert h method b =
     (if method \<noteq> ''POST'' then Some (PlainText 405 ''Method not allowed'', h)
      else case b of
        InvalidJSON err \<Rightarrow>
          Some (JSON 400 \<lparr>Success = False, Message = ''Invalid JSON: '' @ err\<rparr>, h)
      | Decoded req \<Rightarrow>
          if int (length (q_Embedding req)) \<noteq> h_dimensions h
          then Some (JSON 400 \<lparr>Success = False, Message = ''Invalid embedding dimensions''\<rparr>, h)
          else let v = \<lparr>v_ID = q_ID req, v_Embedding = q_Embedding req, v_Metadata = q_Metadata req\<rparr>
               in case BruteForce_Insert (h_bruteForce h) v of
                    (bf, Some err) \<Rightarrow>
                      Some (JSON 500 \<lparr>Success = False,
                                      Message = ''Failed to insert into brute-force index: '' @ err\<rparr>,
                            h\<lparr>h_bruteForce := bf\<rparr>)
                  | (bf, None) \<Rightarrow>
                      (case HNSW_Insert (h_hnsw h) v of
                         None \<Rightarrow> None
                       | Some (hn, Some err) \<Rightarrow>
                           Some (JSON 500 \<lparr>Success = False,
                                           Message = ''Failed to insert into HNSW index: '' @ err\<rparr>,
                                 h\<lparr>h_bruteForce := bf, h_hnsw := hn\<rparr>)
                       | Some (hn, None) \<Rightarrow>
                           Some (JSON 200 \<lparr>Success = True, Message = ''Vector inserted successfully''\<rparr>,
                                 h\<lparr>h_bruteForce := bf, h_hnsw := hn\<rparr>)))"



text \<open>
  \<^verbatim>\<open>HandleSearch\<close> writes no field of the handler. The concurrent search is called
  with four workers; \<open>arrival\<close> is the order in which their results arrive. A panic
  of the search is a panic of the handler: \<open>None\<close>.
\<close>

definition HandleSearch ::
  "Handler \<Rightarrow> string \<Rightarrow> SearchRequest body \<Rightarrow> nat list \<Rightarrow> reply option" where
  "HandleSearch h method b arrival =
     (if method \<noteq> ''POST'' then Some (PlainText 405 ''Method not allowed'')
      else case b of
        InvalidJSON err \<Rightarrow> Some (JSONError 400 (''Invalid JSON: '' @ err))
      | Decoded req \<Rightarrow>
          if int (length (s_Embedding req)) \<noteq> h_dimensions h
          then Some (JSONError 400 ''Invalid embedding dimensions'')
          else let topK = (if s_TopK req \<le> 0 then 10 else s_TopK req);
                   algorithm = (if s_Algorithm req = [] then ''hnsw'' else s_Algorithm req)
               in if algorithm = ''bruteforce''
                  then map_option (JSONResults 200)
                         (BruteForce_Search (h_bruteForce h) (s_Embedding req) topK)
                  else if algorithm = ''bruteforce_concurrent''
                  then map_option (JSONResults 200)
                         (BruteForce_SearchConcurrent (h_bruteForce h) (s_Embedding req) topK 4
                            arrival)
                  else if algorithm = ''hnsw''
                  then map_option (JSONResults 200)
                         (HNSW_Search (h_hnsw h) (s_Embedding req) topK)
                  else Some (JSONError 400 (''Unknown algorithm: '' @ algorithm)))"

section \<open>The result heap is a min-heap by score\<close>

text \<open>
  The heap property is stated in the total order of the scores, and proved first for
  the comparison of that order. \<^verbatim>\<open>resultHeap.Less\<close> is that comparison on the
  heaps that hold no NaN score, so that the heap operations agree there.
\<close>

definition ordered_Less :: "SearchResult list \<Rightarrow> nat \<Rightarrow> nat \<Rightarrow> bool" where
  "ordered_Less h i j = (r_Score (h ! i) < r_Score (h ! j))"

definition no_NaN :: "SearchResult set \<Rightarrow> bool" where
  "no_NaN S = (\<forall>x\<in>S. r_Score x \<noteq> NaN)"

definition min_heap :: "SearchResult list \<Rightarrow> nat \<Rightarrow> bool" where
  "min_heap h n = (\<forall>k. 0 < k \<and> k < n \<longrightarrow> r_Score (h ! ((k - 1) div 2)) \<le> r_Score (h ! k))"

lemma up_min_heap:
  assumes "j < length h"
    and "\<forall>k. 0 < k \<and> k < length h \<and> k \<noteq> j \<longrightarrow> r_Score (h ! ((k - 1) div 2)) \<le> r_Score (h ! k)"
    and "\<forall>k. 0 < k \<and> k < length h \<and> (k - 1) div 2 = j \<and> 0 < j
           \<longrightarrow> r_Score (h ! ((j - 1) div 2)) \<le> r_Score (h ! k)"
  shows "min_heap (up ordered_Less h j) (length h)"
  using assms
proof (induction j arbitrary: h rule: less_induct)
  case (less j)
  let ?i = "(j - 1) div 2"
  note ord = less.prems(2) [rule_format] and gp = less.prems(3) [rule_format]
  show ?case
  proof (cases "?i = j \<or> \<not> ordered_Less h j ?i")
    case True
    have "r_Score (h ! ((k - 1) div 2)) \<le> r_Score (h ! k)" if "0 < k" "k < length h" for k
    proof (cases "k = j")
      case False
      with that show ?thesis using ord by simp
    next
      case kj: True
      with True that have "\<not> ordered_Less h j ?i" by auto
      then show ?thesis by (simp add: ordered_Less_def kj)
    qed
    then have "min_heap h (length h)" by (simp add: min_heap_def)
    with True show ?thesis by (subst up.simps) (simp add: Let_def)
  next
    case False
    then have ij: "?i < j" and lt: "r_Score (h ! j) < r_Score (h ! ?i)"
      by (auto simp: ordered_Less_def)
    have il: "?i < length h" using ij less.prems(1) by linarith
    define h' where "h' = Swap h ?i j"
    have nth: "h' ! k = (if k = j then h ! ?i else if k = ?i then h ! j else h ! k)"
      if "k < length h" for k
      unfolding h'_def using that il less.prems(1) by (simp add: nth_Swap)
    have len: "length h' = length h" by (simp add: h'_def)
    have "min_heap (up ordered_Less h' ?i) (length h')"
    proof (rule less.IH [OF ij])
      show "?i < length h'" using il len by simp
      show "\<forall>k. 0 < k \<and> k < length h' \<and> k \<noteq> ?i
              \<longrightarrow> r_Score (h' ! ((k - 1) div 2)) \<le> r_Score (h' ! k)"
      proof (intro allI impI, elim conjE)
        fix k assume k: "0 < k" "k < length h'" "k \<noteq> ?i"
        have pk: "(k - 1) div 2 < length h" using k len by linarith
        have kl: "k < length h" using k len by simp
        show "r_Score (h' ! ((k - 1) div 2)) \<le> r_Score (h' ! k)"
        proof (cases "k = j")
          case True
          then show ?thesis using lt nth [OF kl] nth [OF il] ij by simp
        next
          case kj: False
          have pkj: "(k - 1) div 2 \<noteq> k" using k by linarith
          consider "(k - 1) div 2 = ?i" | "(k - 1) div 2 = j" | "(k - 1) div 2 \<noteq> ?i" "(k - 1) div 2 \<noteq> j"
            by blast
          then show ?thesis
          proof cases
            case 1
            have "r_Score (h ! ?i) \<le> r_Score (h ! k)" using ord [of k] k kl kj 1 by simp
            then show ?thesis using 1 nth [OF kl] nth [OF il] kj k lt ij by simp
          next
            case 2
            have "0 < j" using ij by simp
            then have "r_Score (h ! ?i) \<le> r_Score (h ! k)" using gp [of k] k kl 2 by simp
            then show ?thesis using 2 nth [OF kl] nth [OF less.prems(1)] kj k by simp
          next
            case 3
            have "r_Score (h ! ((k - 1) div 2)) \<le> r_Score (h ! k)" using ord [of k] k kl kj by simp
            then show ?thesis using 3 nth [OF kl] nth [OF pk] kj k by simp
          qed
        qed
      qed
      show "\<forall>k. 0 < k \<and> k < length h' \<and> (k - 1) div 2 = ?i \<and> 0 < ?i
              \<longrightarrow> r_Score (h' ! ((?i - 1) div 2)) \<le> r_Score (h' ! k)"
      proof (intro allI impI, elim conjE)
        fix k assume k: "0 < k" "k < length h'" "(k - 1) div 2 = ?i" "0 < ?i"
        have kl: "k < length h" using k len by simp
        have ppl: "(?i - 1) div 2 < length h" using il by linarith
        have ppi: "(?i - 1) div 2 < ?i" using k(4) by linarith
        have a: "r_Score (h ! ((?i - 1) div 2)) \<le> r_Score (h ! ?i)"
          using ord [of ?i] k(4) il ij by simp
        have hp: "h' ! ((?i - 1) div 2) = h ! ((?i - 1) div 2)"
          using nth [OF ppl] ppi ij by simp
        have ki: "k \<noteq> ?i" using k by linarith
        show "r_Score (h' ! ((?i - 1) div 2)) \<le> r_Score (h' ! k)"
        proof (cases "k = j")
          case True
          then show ?thesis using a hp nth [OF kl] by simp
        next
          case False
          have "r_Score (h ! ?i) \<le> r_Score (h ! k)" using ord [of k] k kl False by simp
          then show ?thesis using a hp nth [OF kl] False ki by simp
        qed
      qed
    qed
    with False len show ?thesis
      by (subst up.simps) (simp add: Let_def h'_def)
  qed
qed

lemma smaller_child_parent:
  "(smaller_child Less h i n - 1) div 2 = i"
  by (simp add: smaller_child_def)

lemma smaller_child_le:
  assumes "0 < k" "k < n" "(k - 1) div 2 = i"
  shows "r_Score (h ! smaller_child ordered_Less h i n) \<le> r_Score (h ! k)"
proof -
  have "k = 2 * i + 1 \<or> k = 2 * i + 2" using assms(1,3) by linarith
  then show ?thesis
    using assms(2) by (auto simp: smaller_child_def ordered_Less_def)
qed

lemma down_min_heap:
  assumes "n \<le> length h"
    and "\<forall>k. 0 < k \<and> k < n \<and> (k - 1) div 2 \<noteq> i
           \<longrightarrow> r_Score (h ! ((k - 1) div 2)) \<le> r_Score (h ! k)"
    and "\<forall>k. 0 < k \<and> k < n \<and> (k - 1) div 2 = i \<and> 0 < i
           \<longrightarrow> r_Score (h ! ((i - 1) div 2)) \<le> r_Score (h ! k)"
  shows "min_heap (down ordered_Less h i n) n"
  using assms
proof (induction h i rule: down_induct [of n ordered_Less])
  case (stop h i)
  note ord = stop.prems(2) [rule_format]
  let ?j = "smaller_child ordered_Less h i n"
  have "r_Score (h ! ((k - 1) div 2)) \<le> r_Score (h ! k)" if k: "0 < k" "k < n" for k
  proof (cases "(k - 1) div 2 = i")
    case False
    then show ?thesis using ord [of k] k by simp
  next
    case True
    then have "2 * i + 1 < n" using k by linarith
    with stop(1) have "r_Score (h ! i) \<le> r_Score (h ! ?j)"
      by (auto simp: ordered_Less_def)
    also have "\<dots> \<le> r_Score (h ! k)" using k True by (rule smaller_child_le)
    finally show ?thesis using True by simp
  qed
  then have "min_heap h n" by (simp add: min_heap_def)
  with stop(1) show ?case by (subst down_rec) simp
next
  case (step h i)
  note ord = step.prems(2) [rule_format] and gp = step.prems(3) [rule_format]
  let ?j = "smaller_child ordered_Less h i n"
  have j: "i < ?j" "?j < n" using smaller_child_bounds [OF step(1)] by auto
  have pj: "(?j - 1) div 2 = i" by (rule smaller_child_parent)
  have lt: "r_Score (h ! ?j) < r_Score (h ! i)"
    using step(2) by (simp add: ordered_Less_def)
  have jl: "?j < length h" and il: "i < length h" using j step.prems(1) by linarith+
  define h' where "h' = Swap h i ?j"
  have nth: "h' ! k = (if k = ?j then h ! i else if k = i then h ! ?j else h ! k)"
    if "k < length h" for k
    unfolding h'_def using that il jl by (simp add: nth_Swap)
  have len: "length h' = length h" by (simp add: h'_def)
  have "min_heap (down ordered_Less h' ?j n) n"
    unfolding h'_def
  proof (rule step.IH; (fold h'_def)?)
    show "n \<le> length h'" using step.prems(1) len by simp
    show "\<forall>k. 0 < k \<and> k < n \<and> (k - 1) div 2 \<noteq> ?j
            \<longrightarrow> r_Score (h' ! ((k - 1) div 2)) \<le> r_Score (h' ! k)"
    proof (intro allI impI, elim conjE)
      fix k assume k: "0 < k" "k < n" "(k - 1) div 2 \<noteq> ?j"
      have kl: "k < length h" using k step.prems(1) by linarith
      have pk: "(k - 1) div 2 < length h" using kl by linarith
      have pkk: "(k - 1) div 2 < k" using k(1) by linarith
      consider "k = ?j" | "k = i" | "k \<noteq> ?j" "k \<noteq> i" "(k - 1) div 2 = i"
        | "k \<noteq> ?j" "k \<noteq> i" "(k - 1) div 2 \<noteq> i" by blast
      then show "r_Score (h' ! ((k - 1) div 2)) \<le> r_Score (h' ! k)"
      proof cases
        case 1
        then show ?thesis using lt pj nth [OF jl] nth [OF il] j by simp
      next
        case 2
        then have i0: "0 < i" using k by simp
        have "r_Score (h ! ((i - 1) div 2)) \<le> r_Score (h ! ?j)"
          using gp [of ?j] j pj i0 by simp
        moreover have "h' ! ((i - 1) div 2) = h ! ((i - 1) div 2)"
          using nth [OF pk] 2 pkk j by simp
        ultimately show ?thesis using 2 nth [OF il] j by simp
      next
        case 3
        have "r_Score (h ! ?j) \<le> r_Score (h ! k)" using k(1,2) 3(3) by (rule smaller_child_le)
        then show ?thesis using 3 nth [OF kl] nth [OF il] j by simp
      next
        case 4
        have "r_Score (h ! ((k - 1) div 2)) \<le> r_Score (h ! k)" using ord [of k] k 4 by simp
        then show ?thesis using 4 k(3) nth [OF kl] nth [OF pk] by simp
      qed
    qed
    show "\<forall>k. 0 < k \<and> k < n \<and> (k - 1) div 2 = ?j \<and> 0 < ?j
            \<longrightarrow> r_Score (h' ! ((?j - 1) div 2)) \<le> r_Score (h' ! k)"
    proof (intro allI impI, elim conjE)
      fix k assume k: "0 < k" "k < n" "(k - 1) div 2 = ?j" "0 < ?j"
      have kl: "k < length h" using k step.prems(1) by linarith
      have kj: "?j < k" using k(1,3) by linarith
      have "r_Score (h ! ?j) \<le> r_Score (h ! k)" using ord [of k] k j by simp
      then show "r_Score (h' ! ((?j - 1) div 2)) \<le> r_Score (h' ! k)"
        using pj nth [OF kl] nth [OF il] kj j by simp
    qed
  qed
  with step(1,2) show ?case
    by (subst down_rec) (simp add: h'_def)
qed

lemma min_heap_root_le:
  "min_heap h n \<Longrightarrow> k < n \<Longrightarrow> r_Score (h ! 0) \<le> r_Score (h ! k)"
proof (induction k rule: less_induct)
  case (less k)
  show ?case
  proof (cases "k = 0")
    case True
    then show ?thesis by simp
  next
    case False
    then have p: "(k - 1) div 2 < k" by linarith
    have "r_Score (h ! 0) \<le> r_Score (h ! ((k - 1) div 2))"
      using less.IH [OF p less.prems(1)] p less.prems(2) by simp
    also have "\<dots> \<le> r_Score (h ! k)"
      using less.prems False by (simp add: min_heap_def)
    finally show ?thesis .
  qed
qed

lemma min_heap_root_min:
  "min_heap h (length h) \<Longrightarrow> x \<in> set h \<Longrightarrow> r_Score (h ! 0) \<le> r_Score x"
  by (metis in_set_conv_nth min_heap_root_le)

lemma ordered_Push_min_heap:
  assumes "min_heap h (length h)"
  shows "min_heap (heap_Push ordered_Less h x) (Suc (length h))"
proof -
  have "min_heap (up ordered_Less (h @ [x]) (length h)) (length (h @ [x]))"
  proof (rule up_min_heap)
    show "length h < length (h @ [x])" by simp
    show "\<forall>k. 0 < k \<and> k < length (h @ [x]) \<and> k \<noteq> length h
            \<longrightarrow> r_Score ((h @ [x]) ! ((k - 1) div 2)) \<le> r_Score ((h @ [x]) ! k)"
    proof (intro allI impI, elim conjE)
      fix k assume k: "0 < k" "k < length (h @ [x])" "k \<noteq> length h"
      then have kl: "k < length h" by simp
      then have pl: "(k - 1) div 2 < length h" by linarith
      show "r_Score ((h @ [x]) ! ((k - 1) div 2)) \<le> r_Score ((h @ [x]) ! k)"
        using assms k(1) kl pl by (simp add: nth_append min_heap_def)
    qed
    show "\<forall>k. 0 < k \<and> k < length (h @ [x]) \<and> (k - 1) div 2 = length h \<and> 0 < length h
            \<longrightarrow> r_Score ((h @ [x]) ! ((length h - 1) div 2)) \<le> r_Score ((h @ [x]) ! k)"
    proof (intro allI impI, elim conjE)
      fix k assume "0 < k" "k < length (h @ [x])" "(k - 1) div 2 = length h" "0 < length h"
      then have False by simp
      then show "r_Score ((h @ [x]) ! ((length h - 1) div 2)) \<le> r_Score ((h @ [x]) ! k)" ..
    qed
  qed
  then show ?thesis by (simp add: heap_Push_def)
qed

lemma ordered_Pop_min_heap:
  assumes "min_heap h (length h)" and "heap_Pop ordered_Less h = Some (x, h')"
  shows "x = h ! 0" and "min_heap h' (length h')"
proof -
  have ne: "h \<noteq> []" using assms(2) heap_Pop_None [of ordered_Less h] by auto
  define n where "n = length h - 1"
  define s where "s = Swap h 0 n"
  define d where "d = down ordered_Less s 0 n"
  have n: "n < length h" "0 < length h" using ne by (simp_all add: n_def)
  have "heap_Pop ordered_Less h = Some (last d, butlast d)"
    unfolding heap_Pop_def Let_def d_def s_def n_def using ne by simp
  then have x: "x = last d" "h' = butlast d" using assms by simp_all
  have ld: "length d = length h" by (simp add: d_def s_def)
  then have dne: "d \<noteq> []" using ne by auto
  have nth_s: "s ! k = (if k = n then h ! 0 else if k = 0 then h ! n else h ! k)"
    if "k < length h" for k
    unfolding s_def using that n by (simp add: nth_Swap)
  have "last d = d ! n" using dne ld by (simp add: last_conv_nth n_def)
  also have "\<dots> = s ! n" unfolding d_def using n by (intro nth_down_out) (simp_all add: s_def)
  also have "\<dots> = h ! 0" using nth_s [OF n(1)] by simp
  finally show "x = h ! 0" by (simp add: x)
  have "min_heap d n"
    unfolding d_def
  proof (rule down_min_heap)
    show "n \<le> length s" using n by (simp add: s_def)
    show "\<forall>k. 0 < k \<and> k < n \<and> (k - 1) div 2 \<noteq> 0
            \<longrightarrow> r_Score (s ! ((k - 1) div 2)) \<le> r_Score (s ! k)"
    proof (intro allI impI, elim conjE)
      fix k assume k: "0 < k" "k < n" "(k - 1) div 2 \<noteq> 0"
      have kl: "k < length h" and pl: "(k - 1) div 2 < length h" using k n by linarith+
      have pn: "(k - 1) div 2 \<noteq> n" using k by linarith
      have "r_Score (h ! ((k - 1) div 2)) \<le> r_Score (h ! k)"
        using assms(1) k kl by (simp add: min_heap_def)
      then show "r_Score (s ! ((k - 1) div 2)) \<le> r_Score (s ! k)"
        using nth_s [OF kl] nth_s [OF pl] k pn by simp
    qed
    show "\<forall>k. 0 < k \<and> k < n \<and> (k - 1) div 2 = 0 \<and> (0::nat) < 0
            \<longrightarrow> r_Score (s ! ((0 - 1) div 2)) \<le> r_Score (s ! k)"
      by simp
  qed
  moreover have "length h' = n" using ld by (simp add: x n_def)
  moreover have "h' ! k = d ! k" if "k < n" for k
    using that ld by (simp add: x nth_butlast n_def)
  ultimately show "min_heap h' (length h')"
    by (simp add: min_heap_def) (smt (verit) less_imp_diff_less div_le_dividend le_less_trans order.strict_trans1)
qed

text \<open>Two comparisons that agree on every arrangement of the elements give the same heaps.\<close>

definition agree ::
  "('a list \<Rightarrow> nat \<Rightarrow> nat \<Rightarrow> bool) \<Rightarrow> ('a list \<Rightarrow> nat \<Rightarrow> nat \<Rightarrow> bool) \<Rightarrow> 'a multiset \<Rightarrow> bool" where
  "agree Less Less' M =
     (\<forall>h i j. mset h = M \<longrightarrow> i < length h \<longrightarrow> j < length h \<longrightarrow> Less h i j = Less' h i j)"

lemma agreeD:
  "agree Less Less' M \<Longrightarrow> mset h = M \<Longrightarrow> i < length h \<Longrightarrow> j < length h \<Longrightarrow>
     Less h i j = Less' h i j"
  by (simp add: agree_def)

lemma up_agree:
  assumes "agree Less Less' M"
  shows "mset h = M \<Longrightarrow> j < length h \<Longrightarrow> up Less h j = up Less' h j"
proof (induction j arbitrary: h rule: less_induct)
  case (less j)
  let ?i = "(j - 1) div 2"
  have i: "?i < length h" using less.prems(2) by linarith
  have eq: "Less h j ?i = Less' h j ?i"
    using assms less.prems(1,2) i by (rule agreeD)
  show ?case
  proof (cases "?i = j \<or> \<not> Less h j ?i")
    case True
    then have "up Less h j = h" by (subst up.simps) (simp add: Let_def)
    moreover have "up Less' h j = h" using True eq by (subst up.simps) (simp add: Let_def)
    ultimately show ?thesis by simp
  next
    case False
    then have ij: "?i < j" by linarith
    have "mset (Swap h ?i j) = M" using i less.prems by (simp add: mset_Swap)
    then have "up Less (Swap h ?i j) ?i = up Less' (Swap h ?i j) ?i"
      using i by (intro less.IH [OF ij]) simp_all
    moreover have "up Less h j = up Less (Swap h ?i j) ?i"
      using False by (subst up.simps) (simp add: Let_def)
    moreover have "up Less' h j = up Less' (Swap h ?i j) ?i"
      using False eq by (subst up.simps) (simp add: Let_def)
    ultimately show ?thesis by simp
  qed
qed

lemma smaller_child_agree:
  assumes "agree Less Less' M" "mset h = M" "n \<le> length h"
  shows "smaller_child Less h i n = smaller_child Less' h i n"
proof (cases "2 * i + 2 < n")
  case True
  then have "Less h (2 * i + 2) (2 * i + 1) = Less' h (2 * i + 2) (2 * i + 1)"
    using assms by (intro agreeD [OF assms(1,2)]) linarith+
  then show ?thesis by (simp add: smaller_child_def)
next
  case False
  then show ?thesis by (simp add: smaller_child_def)
qed

lemma down_agree:
  assumes "agree Less Less' M"
  shows "mset h = M \<Longrightarrow> n \<le> length h \<Longrightarrow> down Less h i n = down Less' h i n"
proof (induction h i rule: down_induct [of n Less])
  case (stop h i)
  have sc: "smaller_child Less h i n = smaller_child Less' h i n"
    using assms stop.prems by (rule smaller_child_agree)
  have "Less h (smaller_child Less h i n) i = Less' h (smaller_child Less h i n) i"
    if "2 * i + 1 < n"
    using smaller_child_bounds [OF that, of Less h] stop.prems
    by (intro agreeD [OF assms stop.prems(1)]) linarith+
  with stop(1) sc have "2 * i + 1 \<ge> n \<or> \<not> Less' h (smaller_child Less' h i n) i" by auto
  then have "down Less' h i n = h" by (subst down_rec) simp
  moreover have "down Less h i n = h" using stop(1) by (subst down_rec) simp
  ultimately show ?case by simp
next
  case (step h i)
  let ?j = "smaller_child Less h i n"
  have j: "i < ?j" "?j < n" using smaller_child_bounds [OF step(1)] by auto
  have sc: "?j = smaller_child Less' h i n"
    using assms step.prems by (rule smaller_child_agree)
  have "Less h ?j i = Less' h ?j i"
    using j step.prems by (intro agreeD [OF assms step.prems(1)]) linarith+
  with step(2) have l': "Less' h ?j i" by simp
  have "mset (Swap h i ?j) = M"
    using j step.prems by (simp add: mset_Swap)
  then have "down Less (Swap h i ?j) ?j n = down Less' (Swap h i ?j) ?j n"
    using step.prems by (intro step.IH) simp_all
  moreover have "down Less h i n = down Less (Swap h i ?j) ?j n"
    using step(1,2) by (subst down_rec) simp
  moreover have "down Less' h i n = down Less' (Swap h i ?j) ?j n"
    using step(1) l' sc by (subst down_rec) simp
  ultimately show ?case by simp
qed

lemma heap_Push_agree:
  assumes "agree Less Less' (add_mset x (mset h))"
  shows "heap_Push Less h x = heap_Push Less' h x"
  unfolding heap_Push_def by (rule up_agree [OF assms]) simp_all

lemma heap_Pop_agree:
  assumes "agree Less Less' (mset h)"
  shows "heap_Pop Less h = heap_Pop Less' h"
proof (cases "h = []")
  case True
  then show ?thesis by (simp add: heap_Pop_def)
next
  case False
  then have n: "length h - 1 < length h" by simp
  have "mset (Swap h 0 (length h - 1)) = mset h"
    using n False by (intro mset_Swap) simp_all
  then have "down Less (Swap h 0 (length h - 1)) 0 (length h - 1)
               = down Less' (Swap h 0 (length h - 1)) 0 (length h - 1)"
    by (intro down_agree [OF assms]) simp_all
  then show ?thesis by (simp add: heap_Pop_def Let_def)
qed

lemma agree_scores:
  assumes "no_NaN (set_mset M)"
  shows "agree resultHeap_Less ordered_Less M"
  unfolding agree_def
proof (intro allI impI)
  fix h :: "SearchResult list" and i j
  assume "mset h = M" "i < length h" "j < length h"
  then have "h ! i \<in># M" by (metis nth_mem set_mset_mset)
  then have "r_Score (h ! i) \<noteq> NaN" using assms by (simp add: no_NaN_def)
  then show "resultHeap_Less h i j = ordered_Less h i j"
    by (simp add: resultHeap_Less_def ordered_Less_def fless_less)
qed

lemma heap_Push_min_heap:
  assumes "min_heap h (length h)" "no_NaN (insert x (set h))"
  shows "min_heap (heap_Push resultHeap_Less h x) (Suc (length h))"
proof -
  have "agree resultHeap_Less ordered_Less (add_mset x (mset h))"
    using assms(2) by (intro agree_scores) simp
  then have "heap_Push resultHeap_Less h x = heap_Push ordered_Less h x"
    by (rule heap_Push_agree)
  with ordered_Push_min_heap [OF assms(1), of x] show ?thesis by simp
qed

lemma heap_Pop_min_heap:
  assumes "min_heap h (length h)" and "heap_Pop resultHeap_Less h = Some (x, h')"
    and "no_NaN (set h)"
  shows "x = h ! 0" and "min_heap h' (length h')"
proof -
  have "agree resultHeap_Less ordered_Less (mset h)"
    using assms(3) by (intro agree_scores) simp
  then have "heap_Pop resultHeap_Less h = heap_Pop ordered_Less h"
    by (rule heap_Pop_agree)
  with assms(2) have pop: "heap_Pop ordered_Less h = Some (x, h')" by simp
  from ordered_Pop_min_heap [OF assms(1) pop]
  show "x = h ! 0" and "min_heap h' (length h')" by simp_all
qed

section \<open>The selection loop keeps the highest scores\<close>

definition top_scores :: "nat \<Rightarrow> SearchResult multiset \<Rightarrow> SearchResult multiset \<Rightarrow> bool" where
  "top_scores k P R =
     (R \<subseteq># P \<and> size R = min k (size P) \<and> (\<forall>x\<in>#R. \<forall>y\<in>#(P - R). r_Score y \<le> r_Score x))"

lemma top_scores_empty [simp]: "top_scores k {#} {#}"
  by (simp add: top_scores_def)

lemma top_scoresI:
  assumes "P = R + C" "size R = min k (size P)"
    and "\<And>x y. x \<in># R \<Longrightarrow> y \<in># C \<Longrightarrow> r_Score y \<le> r_Score x"
  shows "top_scores k P R"
  using assms by (simp add: top_scores_def)

lemma top_scoresE:
  assumes "top_scores k P R"
  obtains C where "P = R + C" "size R = min k (size P)"
    "\<And>x y. x \<in># R \<Longrightarrow> y \<in># C \<Longrightarrow> r_Score y \<le> r_Score x"
proof -
  from assms have sub: "R \<subseteq># P" by (simp add: top_scores_def)
  then obtain C where C: "P = R + C" by (rule subset_mset.less_eqE)
  then have "P - R = C" by simp
  with assms C that show thesis by (auto simp: top_scores_def)
qed

lemma offer_top_scores:
  assumes k: "1 \<le> topK"
    and heap: "min_heap h (length h)"
    and top: "top_scores (nat topK) P (mset h)"
    and nn: "no_NaN (insert r (set h))"
  shows "\<exists>h'. offer topK h r = Some h' \<and> min_heap h' (length h')
           \<and> top_scores (nat topK) (add_mset r P) (mset h')"
proof -
  have nh: "no_NaN (set h)" using nn by (simp add: no_NaN_def)
  from top obtain C where P: "P = mset h + C" and sz: "length h = min (nat topK) (size P)"
    and ord: "\<And>x y. x \<in> set h \<Longrightarrow> y \<in># C \<Longrightarrow> r_Score y \<le> r_Score x"
    by (auto elim!: top_scoresE)
  have szP: "size P = length h + size C" by (simp add: P)
  show ?thesis
  proof (cases "int (length h) < topK")
    case True
    then have lt: "length h < nat topK" by linarith
    with sz szP have C0: "C = {#}" by (simp add: min_def split: if_splits)
    have "top_scores (nat topK) (add_mset r P) (mset (heap_Push resultHeap_Less h r))"
    proof (rule top_scoresI [where C = "{#}"])
      show "add_mset r P = mset (heap_Push resultHeap_Less h r) + {#}"
        by (simp add: P C0)
      show "size (mset (heap_Push resultHeap_Less h r)) = min (nat topK) (size (add_mset r P))"
        using lt szP C0 by simp
    qed simp
    with True heap_Push_min_heap [OF heap nn] show ?thesis
      by (simp add: offer_def)
  next
    case False
    then have full: "length h = nat topK" using sz k by linarith
    then obtain r0 rest where h: "h = r0 # rest" using k by (cases h) auto
    have r0: "r0 = h ! 0" by (simp add: h)
    have min0: "\<And>x. x \<in> set h \<Longrightarrow> r_Score r0 \<le> r_Score x"
      using min_heap_root_min [OF heap] r0 by simp
    have "r_Score r0 \<noteq> NaN" using nh by (simp add: h no_NaN_def)
    then have cmp: "fless (r_Score r0) (r_Score r) = (r_Score r0 < r_Score r)"
      by (rule fless_less)
    show ?thesis
    proof (cases "r_Score r > r_Score r0")
      case gt: True
      obtain x h1 where pop: "heap_Pop resultHeap_Less h = Some (x, h1)"
        using h heap_Pop_None [of resultHeap_Less h] by (cases "heap_Pop resultHeap_Less h") auto
      have x: "x = r0" and h1: "min_heap h1 (length h1)"
        using heap_Pop_min_heap [OF heap pop nh] r0 by simp_all
      have ms: "mset h = add_mset x (mset h1)" and len: "length h = Suc (length h1)"
        using heap_Pop_Some [OF pop] by simp_all
      have set_h: "set h = insert x (set h1)"
        using ms by (metis set_mset_add_mset_insert set_mset_mset)
      define h' where "h' = heap_Push resultHeap_Less h1 r"
      have res: "offer topK h r = Some h'"
        using False gt pop by (simp add: offer_def h h'_def cmp)
      have mh': "mset h' = add_mset r (mset h1)" by (simp add: h'_def)
      have "no_NaN (insert r (set h1))" using nn set_h by (simp add: no_NaN_def)
      then have "min_heap h' (length h')"
        using heap_Push_min_heap [OF h1, of r] by (simp add: h'_def)
      moreover have "top_scores (nat topK) (add_mset r P) (mset h')"
      proof (rule top_scoresI [where C = "add_mset x C"])
        show "add_mset r P = mset h' + add_mset x C" by (simp add: P ms mh')
        show "size (mset h') = min (nat topK) (size (add_mset r P))"
          using full len szP by (simp add: h'_def)
      next
        fix a y assume a: "a \<in># mset h'" and y: "y \<in># add_mset x C"
        from a have a': "a = r \<or> a \<in> set h1" by (auto simp: mh')
        from y have y': "y = x \<or> y \<in># C" by auto
        have yx: "r_Score y \<le> r_Score x"
          using y' ord [of x y] set_h by auto
        from a' show "r_Score y \<le> r_Score a"
        proof
          assume "a = r"
          then show ?thesis using yx gt x by simp
        next
          assume ah: "a \<in> set h1"
          then have ah': "a \<in> set h" using set_h by simp
          from y' show ?thesis
          proof
            assume "y = x"
            then show ?thesis using min0 [OF ah'] x by simp
          next
            assume "y \<in># C"
            then show ?thesis using ord [OF ah'] by simp
          qed
        qed
      qed
      ultimately show ?thesis using res by blast
    next
      case le: False
      have res: "offer topK h r = Some h"
        using False le by (simp add: offer_def h cmp)
      have "top_scores (nat topK) (add_mset r P) (mset h)"
      proof (rule top_scoresI [where C = "add_mset r C"])
        show "add_mset r P = mset h + add_mset r C" by (simp add: P)
        show "size (mset h) = min (nat topK) (size (add_mset r P))"
          using full szP by simp
      next
        fix a y assume a: "a \<in># mset h" and y: "y \<in># add_mset r C"
        then have "y = r \<or> y \<in># C" by auto
        then show "r_Score y \<le> r_Score a"
        proof
          assume "y = r"
          then show ?thesis using le min0 [of a] a by simp
        next
          assume "y \<in># C"
          then show ?thesis using ord [of a y] a by simp
        qed
      qed
      with res heap show ?thesis by blast
    qed
  qed
qed

lemma top_scores_subset: "top_scores k P R \<Longrightarrow> set_mset R \<subseteq> set_mset P"
  by (auto simp: top_scores_def dest: mset_subset_eqD)

lemma offer_all_top_scores:
  assumes "1 \<le> topK"
  shows "min_heap h (length h) \<Longrightarrow> top_scores (nat topK) P (mset h) \<Longrightarrow>
     no_NaN (set_mset P \<union> set rs) \<Longrightarrow>
     \<exists>h'. offer_all topK h rs = Some h' \<and> min_heap h' (length h')
           \<and> top_scores (nat topK) (P + mset rs) (mset h')"
proof (induction rs arbitrary: h P)
  case Nil
  then show ?case by simp
next
  case (Cons r rs)
  have "set h \<subseteq> set_mset P" using top_scores_subset [OF Cons.prems(2)] by simp
  then have nn: "no_NaN (insert r (set h))" using Cons.prems(3) by (auto simp: no_NaN_def)
  obtain h1 where h1: "offer topK h r = Some h1" "min_heap h1 (length h1)"
    "top_scores (nat topK) (add_mset r P) (mset h1)"
    using offer_top_scores [OF assms Cons.prems(1,2) nn] by blast
  have "no_NaN (set_mset (add_mset r P) \<union> set rs)"
    using Cons.prems(3) by (auto simp: no_NaN_def)
  from Cons.IH [OF h1(2,3) this] h1(1) show ?case by simp
qed

definition descending :: "SearchResult list \<Rightarrow> bool" where
  "descending rs = sorted_wrt (\<lambda>a b. r_Score b \<le> r_Score a) rs"

lemma drain_descending:
  "length h = n \<Longrightarrow> min_heap h (length h) \<Longrightarrow> descending acc \<Longrightarrow>
   (\<forall>a\<in>set acc. \<forall>x\<in>set h. r_Score a \<le> r_Score x) \<Longrightarrow> no_NaN (set h) \<Longrightarrow>
     \<exists>rs. drain n h acc = Some rs \<and> mset rs = mset h + mset acc \<and> descending rs"
proof (induction n arbitrary: h acc)
  case 0
  then show ?case by simp
next
  case (Suc n)
  then have "h \<noteq> []" by auto
  then obtain x h1 where pop: "heap_Pop resultHeap_Less h = Some (x, h1)"
    using heap_Pop_None [of resultHeap_Less h] by (cases "heap_Pop resultHeap_Less h") auto
  have x: "x = h ! 0" and h1: "min_heap h1 (length h1)"
    using heap_Pop_min_heap [OF Suc.prems(2) pop Suc.prems(5)] by simp_all
  have ms: "mset h = add_mset x (mset h1)" and len: "length h = Suc (length h1)"
    using heap_Pop_Some [OF pop] by simp_all
  have set_h: "set h = insert x (set h1)"
    using ms by (metis set_mset_add_mset_insert set_mset_mset)
  have min0: "\<And>y. y \<in> set h \<Longrightarrow> r_Score x \<le> r_Score y"
    using min_heap_root_min [OF Suc.prems(2)] x by simp
  have "\<exists>rs. drain n h1 (x # acc) = Some rs \<and> mset rs = mset h1 + mset (x # acc) \<and> descending rs"
  proof (rule Suc.IH [OF _ h1])
    show "length h1 = n" using len Suc.prems(1) by simp
    show "descending (x # acc)"
      using Suc.prems(3,4) set_h by (auto simp: descending_def)
    show "\<forall>a\<in>set (x # acc). \<forall>y\<in>set h1. r_Score a \<le> r_Score y"
      using Suc.prems(4) set_h min0 by auto
    show "no_NaN (set h1)" using Suc.prems(5) set_h by (simp add: no_NaN_def)
  qed
  then show ?case using pop ms by auto
qed

lemma select_top_scores:
  assumes "1 \<le> topK" "no_NaN (set xs)"
  shows "\<exists>h rs. offer_all topK [] xs = Some h \<and> drain (length h) h [] = Some rs
           \<and> top_scores (nat topK) (mset xs) (mset rs) \<and> descending rs"
proof -
  have "min_heap [] (length [])" by (simp add: min_heap_def)
  moreover have "top_scores (nat topK) {#} (mset [])" by simp
  ultimately obtain h where h: "offer_all topK [] xs = Some h" "min_heap h (length h)"
    "top_scores (nat topK) ({#} + mset xs) (mset h)"
    using offer_all_top_scores [OF assms(1), of "[]" "{#}" xs] assms(2) by auto
  have "set h \<subseteq> set xs" using top_scores_subset [OF h(3)] by simp
  then have "no_NaN (set h)" using assms(2) by (auto simp: no_NaN_def)
  then obtain rs where rs: "drain (length h) h [] = Some rs" "mset rs = mset h + mset []"
    "descending rs"
    using drain_descending [OF refl h(2), of "[]"] by (auto simp: descending_def)
  show ?thesis using h rs by simp
qed

section \<open>Brute-force search: the results are the best by score (C1)\<close>

text \<open>
  What the specification asks of \<^verbatim>\<open>Search\<close>, in its words: the \<open>k\<close> stored
  vectors with the highest similarity, in descending order of score, ties in insertion
  order. That is the first \<open>k\<close> results of a stable sort by descending score.
\<close>

definition stable_top_k :: "float list \<Rightarrow> nat \<Rightarrow> Vector list \<Rightarrow> SearchResult list" where
  "stable_top_k query k vs = take k (sort_key (\<lambda>r. fneg (r_Score r)) (map (scored query) vs))"

text \<open>
  Three stored vectors, the first two of the same score against the query \<open>(1, 0)\<close>.
\<close>

abbreviation unit_x :: "float list" where
  "unit_x \<equiv> [Fin 1, Fin 0]"

abbreviation unit_y :: "float list" where
  "unit_y \<equiv> [Fin 0, Fin 1]"

definition no_meta :: Metadata where
  "no_meta = \<lparr>DocumentID = [], ChunkIndex = 0, Text = [], PageNumber = 0\<rparr>"

definition vec_a :: Vector where
  "vec_a = \<lparr>v_ID = ''a'', v_Embedding = unit_y, v_Metadata = no_meta\<rparr>"

definition vec_b :: Vector where
  "vec_b = \<lparr>v_ID = ''b'', v_Embedding = unit_y, v_Metadata = no_meta\<rparr>"

definition vec_c :: Vector where
  "vec_c = \<lparr>v_ID = ''c'', v_Embedding = unit_x, v_Metadata = no_meta\<rparr>"

definition tie_index :: BruteForceIndex where
  "tie_index = \<lparr>vectors = [vec_a, vec_b, vec_c], dimensions = 2\<rparr>"

text \<open>
  Three stored vectors of which the first overflows against the query \<open>(2\<^sup>4\<^sup>0, 0)\<close>: the
  product \<open>2\<^sup>4\<^sup>0 \<times> 2\<^sup>1\<^sup>0\<^sup>0\<close> and the square of \<open>2\<^sup>1\<^sup>0\<^sup>0\<close> are infinite in
  \<^verbatim>\<open>float32\<close>, and the quotient of two infinities is NaN. The other two score \<open>0\<close>
  and \<open>1\<close>.
\<close>

abbreviation big_query :: "float list" where
  "big_query \<equiv> [Fin (2 ^ 40), Fin 0]"

definition vec_big :: Vector where
  "vec_big = \<lparr>v_ID = ''big'', v_Embedding = [Fin (2 ^ 100), Fin 0], v_Metadata = no_meta\<rparr>"

definition vec_low :: Vector where
  "vec_low = \<lparr>v_ID = ''low'', v_Embedding = unit_y, v_Metadata = no_meta\<rparr>"

definition vec_high :: Vector where
  "vec_high = \<lparr>v_ID = ''high'', v_Embedding = unit_x, v_Metadata = no_meta\<rparr>"

definition overflow_index :: BruteForceIndex where
  "overflow_index = \<lparr>vectors = [vec_big, vec_low, vec_high], dimensions = 2\<rparr>"

lemmas heap_eval = offer_def heap_Push_def heap_Pop_def resultHeap_Less_def Swap_def Let_def
  up.simps down.simps

lemma scored_tie:
  "scored unit_x vec_a = \<lparr>r_ID = ''a'', r_Score = Fin 0, r_Metadata = no_meta\<rparr>"
  "scored unit_x vec_b = \<lparr>r_ID = ''b'', r_Score = Fin 0, r_Metadata = no_meta\<rparr>"
  "scored unit_x vec_c = \<lparr>r_ID = ''c'', r_Score = Fin 1, r_Metadata = no_meta\<rparr>"
  by (simp_all add: scored_def vec_a_def vec_b_def vec_c_def cos_10_01 cos_10_10)

lemma scored_overflow:
  "scored big_query vec_big = \<lparr>r_ID = ''big'', r_Score = NaN, r_Metadata = no_meta\<rparr>"
  "scored big_query vec_low = \<lparr>r_ID = ''low'', r_Score = Fin 0, r_Metadata = no_meta\<rparr>"
  "scored big_query vec_high = \<lparr>r_ID = ''high'', r_Score = Fin 1, r_Metadata = no_meta\<rparr>"
  by (simp_all only: scored_def vec_big_def vec_low_def vec_high_def Vector.simps
        cos_overflow cos_big_01 cos_big_10)

lemma Search_tie_index:
  "BruteForce_Search tie_index unit_x 2 = Some [scored unit_x vec_c, scored unit_x vec_b]"
  by (simp add: BruteForce_Search_def tie_index_def scored_tie heap_eval)

lemma stable_top_k_tie_index:
  "stable_top_k unit_x 2 (vectors tie_index) = [scored unit_x vec_c, scored unit_x vec_a]"
  by (simp add: stable_top_k_def tie_index_def scored_tie)

lemma Search_overflow_index:
  "BruteForce_Search overflow_index big_query 2
     = Some [scored big_query vec_low, scored big_query vec_big]"
  unfolding BruteForce_Search_def overflow_index_def
  by (simp add: scored_overflow heap_eval del: power_numeral)

text \<open>
  C1 as stated fails in two ways. On a tie: with \<open>a\<close> and \<open>b\<close> of equal score and \<open>c\<close>
  better, \<^verbatim>\<open>Search(q, 2)\<close> returns \<open>c\<close> and then \<open>b\<close>, where insertion order
  would keep \<open>a\<close>; the binary heap evicts its root, which among equal scores is not the
  last inserted. On a NaN score: every comparison with it is false, so the NaN that
  reached the root of the heap is never evicted, and \<^verbatim>\<open>Search(q, 2)\<close> returns the
  vector of score \<open>0\<close> and the one of score NaN, leaving out the vector of score \<open>1\<close>.
\<close>

theorem C1_counterexample:
  "BruteForce_Search tie_index unit_x 2 = Some [scored unit_x vec_c, scored unit_x vec_b]
   \<and> stable_top_k unit_x 2 (vectors tie_index) = [scored unit_x vec_c, scored unit_x vec_a]
   \<and> BruteForce_Search tie_index unit_x 2 \<noteq> Some (stable_top_k unit_x 2 (vectors tie_index))
   \<and> BruteForce_Search overflow_index big_query 2
        = Some [scored big_query vec_low, scored big_query vec_big]
   \<and> r_Score (scored big_query vec_low) = Fin 0
   \<and> r_Score (scored big_query vec_big) = NaN
   \<and> r_Score (scored big_query vec_high) = Fin 1"
  by (simp add: Search_tie_index stable_top_k_tie_index Search_overflow_index scored_tie
        scored_overflow del: power_numeral)

text \<open>
  C1, amended: for every brute-force index, every query and every \<open>k \<ge> 1\<close> such that
  no stored vector scores NaN against the query, \<^verbatim>\<open>Search(q, k)\<close> returns
  \<open>min(k, n)\<close> results, each the result of a stored vector (as a multiset: no vector
  twice), in descending order of score, and every stored vector left out scores no
  higher than any returned one. Which of several vectors of equal score is returned, and
  their order, is the heap's choice.
\<close>

theorem C1_Search_top_k:
  assumes "1 \<le> topK"
    and "\<forall>v\<in>set (vectors idx). CosineSimilarity query (v_Embedding v) \<noteq> NaN"
  shows "\<exists>rs. BruteForce_Search idx query topK = Some rs
           \<and> length rs = min (nat topK) (length (vectors idx))
           \<and> sorted_wrt (\<lambda>a b. r_Score b \<le> r_Score a) rs
           \<and> mset rs \<subseteq># mset (map (scored query) (vectors idx))
           \<and> (\<forall>x\<in>set rs. \<forall>y\<in>#(mset (map (scored query) (vectors idx)) - mset rs).
                 r_Score y \<le> r_Score x)"
proof (cases "vectors idx = []")
  case True
  then show ?thesis by (simp add: BruteForce_Search_def)
next
  case False
  have "no_NaN (set (map (scored query) (vectors idx)))"
    using assms(2) by (simp add: no_NaN_def scored_def)
  then obtain h rs where *: "offer_all topK [] (map (scored query) (vectors idx)) = Some h"
    "drain (length h) h [] = Some rs"
    "top_scores (nat topK) (mset (map (scored query) (vectors idx))) (mset rs)" "descending rs"
    using select_top_scores [OF assms(1)] by blast
  have "BruteForce_Search idx query topK = Some rs"
    using False * by (simp add: BruteForce_Search_def)
  moreover have "length rs = min (nat topK) (length (vectors idx))"
    using *(3) by (simp add: top_scores_def)
  ultimately show ?thesis
    using *(3,4) by (simp add: top_scores_def descending_def)
qed

theorem C1_witness:
  "(1::int) \<le> 2
   \<and> CosineSimilarity unit_x (v_Embedding vec_a) = Fin 0
   \<and> CosineSimilarity unit_x (v_Embedding vec_b) = Fin 0
   \<and> CosineSimilarity unit_x (v_Embedding vec_c) = Fin 1
   \<and> (\<exists>rs. BruteForce_Search tie_index unit_x 2 = Some rs
          \<and> length rs = min (nat 2) (length (vectors tie_index))
          \<and> sorted_wrt (\<lambda>a b. r_Score b \<le> r_Score a) rs
          \<and> mset rs \<subseteq># mset (map (scored unit_x) (vectors tie_index)))"
proof -
  have s: "CosineSimilarity unit_x (v_Embedding vec_a) = Fin 0"
    "CosineSimilarity unit_x (v_Embedding vec_b) = Fin 0"
    "CosineSimilarity unit_x (v_Embedding vec_c) = Fin 1"
    by (simp_all add: vec_a_def vec_b_def vec_c_def cos_10_01 cos_10_10)
  then have "\<forall>v\<in>set (vectors tie_index). CosineSimilarity unit_x (v_Embedding v) \<noteq> NaN"
    by (simp add: tie_index_def)
  from C1_Search_top_k [OF _ this, of 2] s show ?thesis by auto
qed

section \<open>Concurrent search against serial search (C4)\<close>

lemma top_scores_count:
  assumes "top_scores k P R" and up: "\<And>x y. Q x \<Longrightarrow> r_Score x \<le> r_Score y \<Longrightarrow> Q y"
  shows "size (filter_mset Q R) = min k (size (filter_mset Q P))"
proof -
  from assms(1) obtain C where P: "P = R + C" and sz: "size R = min k (size P)"
    and ord: "\<And>x y. x \<in># R \<Longrightarrow> y \<in># C \<Longrightarrow> r_Score y \<le> r_Score x"
    by (rule top_scoresE) blast
  have le: "size (filter_mset Q R) \<le> size R" by simp
  show ?thesis
  proof (cases "filter_mset Q C = {#}")
    case True
    then have "size (filter_mset Q P) = size (filter_mset Q R)" by (simp add: P)
    moreover have "size R \<le> k" using sz by simp
    ultimately show ?thesis using le by linarith
  next
    case False
    then obtain y where y: "y \<in># C" "Q y" by auto
    then have "\<forall>x\<in>#R. Q x" using ord up by blast
    then have all: "filter_mset Q R = R" by (induction R) auto
    have "C \<noteq> {#}" using y by auto
    then have "size R < size P" by (simp add: P nonempty_has_size)
    with sz have "size R = k" by simp
    moreover have "size (filter_mset Q P) \<ge> size R" by (simp add: P all)
    ultimately show ?thesis by (simp add: all)
  qed
qed

lemma count_by_thresholds:
  fixes A :: "'a::linorder multiset"
  shows "count A t = size (filter_mset (\<lambda>a. t \<le> a) A) - size (filter_mset (\<lambda>a. t < a) A)"
proof -
  have "filter_mset (\<lambda>a. t \<le> a) A
          = filter_mset (\<lambda>a. t < a) A + filter_mset (\<lambda>a. a = t) A"
    by (rule multiset_eqI) auto
  then have "size (filter_mset (\<lambda>a. t \<le> a) A)
          = size (filter_mset (\<lambda>a. t < a) A) + count A t"
    by (simp add: filter_eq_replicate_mset)
  then show ?thesis by simp
qed

lemma size_filter_scores:
  "size (filter_mset Q (image_mset r_Score R)) = size (filter_mset (\<lambda>x. Q (r_Score x)) R)"
  by (simp add: filter_mset_image_mset)

lemma scores_unique:
  assumes "\<And>t. size (filter_mset (\<lambda>x. t \<le> r_Score x) R) = size (filter_mset (\<lambda>x. t \<le> r_Score x) R')"
    and "\<And>t. size (filter_mset (\<lambda>x. t < r_Score x) R) = size (filter_mset (\<lambda>x. t < r_Score x) R')"
  shows "image_mset r_Score R = image_mset r_Score R'"
  by (rule multiset_eqI) (simp add: count_by_thresholds size_filter_scores assms)

lemma min_sum_min:
  fixes k a A A' :: nat
  assumes "min k A = min k A'"
  shows "min k (min k a + A) = min k (a + A')"
  using assms by (simp add: min_def split: if_splits)


declare worker_chunks.simps [simp del]

lemma worker_chunks_concat:
  "1 \<le> chunkSize \<Longrightarrow> int (length vs) \<le> numWorkers * chunkSize \<Longrightarrow> 0 \<le> i \<Longrightarrow>
     concat (worker_chunks vs numWorkers chunkSize i) = drop (nat (i * chunkSize)) vs"
proof (induction vs numWorkers chunkSize i rule: worker_chunks.induct)
  case (1 vs numWorkers chunkSize i)
  note cs = "1.prems"(1) and cover = "1.prems"(2)
  let ?start = "i * chunkSize"
  let ?finish = "if ?start + chunkSize > int (length vs) then int (length vs) else ?start + chunkSize"
  have s0: "0 \<le> ?start" using "1.prems"(3) cs by simp
  show ?case
  proof (cases "i < numWorkers \<and> ?start < int (length vs)")
    case False
    then have "int (length vs) \<le> ?start"
    proof (cases "i < numWorkers")
      case True
      with False show ?thesis by simp
    next
      case False
      then have "numWorkers * chunkSize \<le> i * chunkSize" using cs by (simp add: mult_right_mono)
      with cover show ?thesis by linarith
    qed
    then have "drop (nat ?start) vs = []" by simp
    moreover have "worker_chunks vs numWorkers chunkSize i = []"
      using False by (subst worker_chunks.simps) (auto simp: Let_def)
    ultimately show ?thesis by simp
  next
    case True
    have rec: "worker_chunks vs numWorkers chunkSize i
        = take (nat (?finish - ?start)) (drop (nat ?start) vs)
            # worker_chunks vs numWorkers chunkSize (i + 1)"
      using True by (subst worker_chunks.simps) (simp add: Let_def)
    have ih: "concat (worker_chunks vs numWorkers chunkSize (i + 1))
        = drop (nat ((i + 1) * chunkSize)) vs"
      using "1.IH" [OF _ refl refl] True "1.prems" by simp
    have "drop (nat ((i + 1) * chunkSize)) vs = drop (nat ?finish) vs"
      by (simp add: distrib_right)
    also have "\<dots> = drop (nat (?finish - ?start)) (drop (nat ?start) vs)"
    proof -
      define s where "s = ?start"
      define f where "f = ?finish"
      have "s \<le> f" "0 \<le> s" using True s0 cs by (auto simp: s_def f_def)
      then have "nat f = nat (f - s) + nat s" by linarith
      then show ?thesis unfolding s_def f_def by (simp only: drop_drop)
    qed
    finally have "concat (worker_chunks vs numWorkers chunkSize (i + 1))
        = drop (nat (?finish - ?start)) (drop (nat ?start) vs)"
      using ih by simp
    then have "concat (worker_chunks vs numWorkers chunkSize i)
        = take (nat (?finish - ?start)) (drop (nat ?start) vs)
            @ drop (nat (?finish - ?start)) (drop (nat ?start) vs)"
      unfolding rec by (simp only: concat.simps)
    then show ?thesis by (simp only: append_take_drop_id)
  qed
qed

lemma launched_chunks_concat:
  assumes "vectors idx \<noteq> []"
  shows "concat (launched_chunks idx numWorkers) = vectors idx"
proof -
  define W where "W = (if numWorkers \<le> 0 then 4 else numWorkers)"
  define n where "n = int (length (vectors idx))"
  define cs where "cs = (n + W - 1) div W"
  have W: "1 \<le> W" by (simp add: W_def)
  have n: "1 \<le> n" using assms by (cases "vectors idx") (simp_all add: n_def)
  have cs1: "1 \<le> cs"
  proof -
    have "W div W \<le> (n + W - 1) div W" using W n by (intro zdiv_mono1) simp_all
    then show ?thesis using W by (simp add: cs_def)
  qed
  have cover: "n \<le> W * cs"
  proof -
    have "W * cs = (n + W - 1) - (n + W - 1) mod W"
      by (simp add: cs_def minus_mod_eq_mult_div)
    moreover have "(n + W - 1) mod W < W" using W by simp
    ultimately show ?thesis by linarith
  qed
  have "concat (worker_chunks (vectors idx) W cs 0) = drop (nat (0 * cs)) (vectors idx)"
    using cs1 cover by (intro worker_chunks_concat) (simp_all add: n_def)
  then show ?thesis
    by (simp add: launched_chunks_def Let_def W_def cs_def n_def)
qed


lemma searchChunk_top_scores:
  assumes "1 \<le> topK" "no_NaN (set (map (scored query) vs))"
  shows "\<exists>rs. searchChunk query vs topK = Some rs
           \<and> top_scores (nat topK) (mset (map (scored query) vs)) (mset rs) \<and> descending rs"
  using select_top_scores [OF assms]
  by (auto simp: searchChunk_def)

lemma mergeResults_top_scores:
  assumes "1 \<le> topK" "no_NaN (set (concat resultsChan))"
  shows "\<exists>rs. mergeResults resultsChan topK = Some rs
           \<and> top_scores (nat topK) (mset (concat resultsChan)) (mset rs) \<and> descending rs"
  using select_top_scores [OF assms]
  by (auto simp: mergeResults_def)

lemma sequence_option_map:
  assumes "\<And>c. c \<in> set cs \<Longrightarrow> f c \<noteq> None"
  shows "sequence_option (map f cs) = Some (map (\<lambda>c. the (f c)) cs)"
proof -
  have "None \<notin> set (map f cs)"
  proof
    assume "None \<in> set (map f cs)"
    then obtain c where "c \<in> set cs" "f c = None" by (auto simp: image_iff)
    with assms show False by blast
  qed
  then show ?thesis by (simp add: sequence_option_def)
qed

lemma mset_concat_arrival:
  assumes "arrival_order (length ps) arrival"
  shows "mset (concat (map (\<lambda>w. ps ! w) arrival)) = mset (concat ps)"
proof -
  have "mset (map (\<lambda>w. ps ! w) arrival) = image_mset (\<lambda>w. ps ! w) (mset [0..<length ps])"
    using assms by (simp add: arrival_order_def)
  also have "\<dots> = mset (map (\<lambda>w. ps ! w) [0..<length ps])" by simp
  also have "\<dots> = mset ps" by (simp only: map_nth)
  finally have "image_mset mset (mset (map (\<lambda>w. ps ! w) arrival)) = image_mset mset (mset ps)"
    by simp
  then have "sum_mset (mset (map mset (map (\<lambda>w. ps ! w) arrival))) = sum_mset (mset (map mset ps))"
    by (simp only: mset_map)
  then show ?thesis by (simp only: mset_concat sum_mset_sum_list)
qed

lemma partial_counts:
  assumes top: "\<And>c. c \<in> set cs \<Longrightarrow> top_scores k (mset (map (scored query) c)) (mset (g c))"
    and up: "\<And>x y. Q x \<Longrightarrow> r_Score x \<le> r_Score y \<Longrightarrow> Q y"
  shows "min k (size (filter_mset Q (mset (concat (map g cs)))))
           = min k (size (filter_mset Q (mset (map (scored query) (concat cs)))))"
  using top
proof (induction cs)
  case Nil
  then show ?case by simp
next
  case (Cons c cs)
  have a: "size (filter_mset Q (mset (g c)))
             = min k (size (filter_mset Q (mset (map (scored query) c))))"
    using Cons.prems [of c] up by (intro top_scores_count) simp_all
  have ih: "min k (size (filter_mset Q (mset (concat (map g cs)))))
           = min k (size (filter_mset Q (mset (map (scored query) (concat cs)))))"
    using Cons by simp
  show ?case
    using min_sum_min [OF ih, of "size (filter_mset Q (mset (map (scored query) c)))"]
    by (simp add: a)
qed

lemma partial_subset:
  assumes "\<And>c. c \<in> set cs \<Longrightarrow> top_scores k (mset (map (scored query) c)) (mset (g c))"
  shows "mset (concat (map g cs)) \<subseteq># mset (map (scored query) (concat cs))"
  using assms
proof (induction cs)
  case Nil
  then show ?case by simp
next
  case (Cons c cs)
  have "mset (g c) \<subseteq># mset (map (scored query) c)"
    using Cons.prems [of c] by (simp add: top_scores_def)
  moreover have "mset (concat (map g cs)) \<subseteq># mset (map (scored query) (concat cs))"
    using Cons by simp
  ultimately show ?case
    by (simp add: subset_mset.add_mono del: mset_map)
qed

lemma descending_scores_unique:
  assumes "descending rs" "descending rs'"
    and "image_mset r_Score (mset rs) = image_mset r_Score (mset rs')"
  shows "map r_Score rs = map r_Score rs'"
proof -
  have s: "sorted (rev (map r_Score xs))" if "descending xs" for xs
    using that by (simp add: descending_def sorted_wrt_rev sorted_wrt_map)
  have "mset (rev (map r_Score rs)) = mset (rev (map r_Score rs'))"
    using assms(3) by simp
  then have "rev (map r_Score rs) = rev (map r_Score rs')"
    using s [OF assms(1)] s [OF assms(2)] by (metis properties_for_sort)
  then show ?thesis by simp
qed


lemma launched_chunks_tie_index:
  "launched_chunks tie_index 2 = [[vec_a, vec_b], [vec_c]]"
  by (simp add: launched_chunks_def tie_index_def worker_chunks.simps Let_def)

lemma searchChunk_ab: "searchChunk unit_x [vec_a, vec_b] 2 = Some [scored unit_x vec_b, scored unit_x vec_a]"
  by (simp add: searchChunk_def scored_tie heap_eval)

lemma searchChunk_c: "searchChunk unit_x [vec_c] 2 = Some [scored unit_x vec_c]"
  by (simp add: searchChunk_def scored_tie heap_eval)

lemma SearchConcurrent_tie_index:
  "BruteForce_SearchConcurrent tie_index unit_x 2 2 [0, 1]
     = Some [scored unit_x vec_c, scored unit_x vec_a]"
proof -
  have "BruteForce_SearchConcurrent tie_index unit_x 2 2 [0, 1]
      = mergeResults [[scored unit_x vec_b, scored unit_x vec_a], [scored unit_x vec_c]] 2"
    by (simp add: BruteForce_SearchConcurrent_def launched_chunks_tie_index searchChunk_ab
        searchChunk_c sequence_option_def) (simp add: tie_index_def)
  also have "\<dots> = Some [scored unit_x vec_c, scored unit_x vec_a]"
    by (simp add: mergeResults_def scored_tie heap_eval)
  finally show ?thesis .
qed

lemma launched_chunks_overflow_index:
  "launched_chunks overflow_index 2 = [[vec_big, vec_low], [vec_high]]"
  by (simp add: launched_chunks_def overflow_index_def worker_chunks.simps Let_def)

lemma searchChunk_big_low:
  "searchChunk big_query [vec_big, vec_low] 2
     = Some [scored big_query vec_low, scored big_query vec_big]"
  unfolding searchChunk_def by (simp add: scored_overflow heap_eval del: power_numeral)

lemma searchChunk_high: "searchChunk big_query [vec_high] 2 = Some [scored big_query vec_high]"
  unfolding searchChunk_def by (simp add: scored_overflow heap_eval del: power_numeral)

lemma SearchConcurrent_overflow_index:
  "BruteForce_SearchConcurrent overflow_index big_query 2 2 [0, 1]
     = Some [scored big_query vec_high, scored big_query vec_big]"
proof -
  have "BruteForce_SearchConcurrent overflow_index big_query 2 2 [0, 1]
      = mergeResults [[scored big_query vec_low, scored big_query vec_big],
                      [scored big_query vec_high]] 2"
    unfolding BruteForce_SearchConcurrent_def launched_chunks_overflow_index
    by (simp add: searchChunk_big_low searchChunk_high sequence_option_def del: power_numeral)
       (simp add: overflow_index_def)
  also have "\<dots> = Some [scored big_query vec_high, scored big_query vec_big]"
    unfolding mergeResults_def by (simp add: scored_overflow heap_eval del: power_numeral)
  finally show ?thesis .
qed






section \<open>The HNSW operations return\<close>

declare searchLayer_loop.simps [simp del] descend.simps [simp del] greedy_layer.simps [simp del]
  randomLevel_loop.simps [simp del]

lemma explore_Some:
  "results \<noteq> [] \<Longrightarrow>
     \<exists>visited' candidates' results'.
        explore ns query ef ids (visited, candidates, results) = Some (visited', candidates', results')
        \<and> results' \<noteq> []"
proof (induction ids arbitrary: visited candidates results)
  case Nil
  then show ?case by simp
next
  case (Cons nid ids)
  have push: "heap_Push Less h x \<noteq> []" for Less and h :: "distanceNode list" and x
    using length_heap_Push [of Less h x] by (metis length_0_conv nat.distinct(1))
  show ?case
  proof (cases "nid \<in> visited")
    case True
    with Cons show ?thesis by simp
  next
    case False
    show ?thesis
    proof (cases "fmlookup ns nid")
      case None
      with False Cons show ?thesis by simp
    next
      case (Some neighbor)
      obtain furthest tl where res: "results = furthest # tl"
        using Cons.prems by (cases results) auto
      obtain popped results' where pop: "heap_Pop distanceHeap_Less results = Some (popped, results')"
        using Cons.prems heap_Pop_None [of distanceHeap_Less results]
        by (cases "heap_Pop distanceHeap_Less results") auto
      show ?thesis
        using False Some res pop Cons.IH push
        by (simp add: Let_def)
    qed
  qed
qed

lemma searchLayer_loop_Some:
  "results \<noteq> [] \<Longrightarrow> 0 \<le> layer \<Longrightarrow>
     \<exists>results'. searchLayer_loop ns query ef layer (visited, candidates, results) = Some results'"
proof (induction ns query ef layer "(visited, candidates, results)"
        arbitrary: visited candidates results rule: searchLayer_loop.induct)
  case (1 ns query ef layer visited candidates results)
  show ?case
  proof (cases "heap_Pop distanceHeap_Less candidates")
    case None
    then show ?thesis by (subst searchLayer_loop.simps) simp
  next
    case (Some p)
    obtain closest candidates' where p: "p = (closest, candidates')" by (cases p)
    note pop = Some [unfolded p]
    show ?thesis
    proof (cases "results \<noteq> [] \<and> fless (d_Distance (results ! 0)) (d_Distance closest)")
      case True
      with pop show ?thesis by (subst searchLayer_loop.simps) simp
    next
      case far: False
      show ?thesis
      proof (cases "fmlookup ns (d_ID closest)")
        case None
        from "1.hyps"(1) [OF pop refl far None "1.prems"] pop far None
        show ?thesis by (subst searchLayer_loop.simps) simp
      next
        case (Some node)
        show ?thesis
        proof (cases "layer \<ge> int (length (n_Neighbors node))")
          case True
          from "1.hyps"(2) [OF pop refl far Some True "1.prems"] pop far Some True
          show ?thesis by (subst searchLayer_loop.simps) simp
        next
          case False
          have nl: "\<not> layer < 0" using "1.prems"(2) by simp
          obtain visited' candidates'' results''
            where ex: "explore ns query ef (n_Neighbors node ! nat layer) (visited, candidates', results)
                         = Some (visited', candidates'', results'')" and ne: "results'' \<noteq> []"
            using explore_Some [OF "1.prems"(1)] by blast
          from "1.hyps"(3) [OF pop refl far Some False nl ex ne "1.prems"(2)]
            pop far Some False nl ex
          show ?thesis by (subst searchLayer_loop.simps) simp
        qed
      qed
    qed
  qed
qed

lemma drain_distances_Some:
  "length h = n \<Longrightarrow> \<exists>out. drain_distances n h acc = Some out \<and> mset out = mset h + mset acc"
proof (induction n arbitrary: h acc)
  case 0
  then show ?case by simp
next
  case (Suc n)
  then have "h \<noteq> []" by auto
  then obtain x h' where pop: "heap_Pop distanceHeap_Less h = Some (x, h')"
    using heap_Pop_None [of distanceHeap_Less h] by (cases "heap_Pop distanceHeap_Less h") auto
  note p = heap_Pop_Some [OF pop]
  have "length h' = n" using p(2) Suc.prems by simp
  from Suc.IH [OF this, of "x # acc"] pop p(1) show ?case by auto
qed

lemma searchLayer_Some:
  assumes "0 \<le> layer"
  shows "\<exists>out. searchLayer ns query entryID ef layer = Some out"
proof (cases "fmlookup ns entryID")
  case None
  then show ?thesis by (simp add: searchLayer_def)
next
  case (Some entryNode)
  define entryDist where "entryDist = CosineDistance query (n_Vector entryNode)"
  define candidates where "candidates = heap_Push distanceHeap_Less []
                             \<lparr>d_ID = entryID, d_Distance = entryDist, d_isMaxHeap = False\<rparr>"
  define results where "results = heap_Push distanceHeap_Less []
                             \<lparr>d_ID = entryID, d_Distance = entryDist, d_isMaxHeap = True\<rparr>"
  have "results \<noteq> []"
    using length_heap_Push [of distanceHeap_Less "[]"] unfolding results_def
    by (metis length_0_conv nat.distinct(1))
  then obtain results' where
    loop: "searchLayer_loop ns query ef layer ({entryID}, candidates, results) = Some results'"
    using searchLayer_loop_Some assms by blast
  obtain out where "drain_distances (length results') results' [] = Some out"
    using drain_distances_Some [OF refl] by blast
  then show ?thesis
    using Some loop
    by (simp add: searchLayer_def Let_def entryDist_def candidates_def results_def)
qed


text \<open>
  After the new node is stored, \<^verbatim>\<open>Insert\<close> only rewrites neighbour lists: every node
  keeps its id, vector, metadata, layer and number of layers, and no node appears or
  disappears.
\<close>

definition same_data :: "HNSWNode \<Rightarrow> HNSWNode \<Rightarrow> bool" where
  "same_data a b =
     (n_ID b = n_ID a \<and> n_Vector b = n_Vector a \<and> n_Metadata b = n_Metadata a
      \<and> n_Layer b = n_Layer a \<and> length (n_Neighbors b) = length (n_Neighbors a))"

definition neighbors_only :: "(string, HNSWNode) fmap \<Rightarrow> (string, HNSWNode) fmap \<Rightarrow> bool" where
  "neighbors_only ns ns' = (\<forall>x. rel_option same_data (fmlookup ns x) (fmlookup ns' x))"

lemma same_data_refl [simp]: "same_data a a"
  by (simp add: same_data_def)

lemma same_data_trans: "same_data a b \<Longrightarrow> same_data b c \<Longrightarrow> same_data a c"
  by (simp add: same_data_def)

lemma same_data_set_layer [simp]: "same_data a (set_layer l ids a)"
  by (simp add: same_data_def set_layer_def)

lemma neighbors_only_refl [simp]: "neighbors_only ns ns"
  by (simp add: neighbors_only_def option.rel_refl)

lemma neighbors_only_trans:
  assumes "neighbors_only a b" "neighbors_only b c"
  shows "neighbors_only a c"
  unfolding neighbors_only_def
proof
  fix x
  have "rel_option same_data (fmlookup a x) (fmlookup b x)"
    "rel_option same_data (fmlookup b x) (fmlookup c x)"
    using assms by (simp_all add: neighbors_only_def)
  then show "rel_option same_data (fmlookup a x) (fmlookup c x)"
    by (cases "fmlookup a x"; cases "fmlookup b x"; cases "fmlookup c x")
       (auto intro: same_data_trans)
qed

lemma neighbors_only_fmupd:
  assumes "fmlookup ns x = Some a" "same_data a b"
  shows "neighbors_only ns (fmupd x b ns)"
  using assms by (auto simp: neighbors_only_def option.rel_refl)

lemma neighbors_only_on_node [simp]:
  "neighbors_only ns (on_node ns x (set_layer l ids))"
  by (cases "fmlookup ns x") (auto simp: on_node_def intro: neighbors_only_fmupd)

lemma neighbors_only_on_node':
  "neighbors_only ns (on_node ns x (\<lambda>node. set_layer l (f node) node))"
  by (cases "fmlookup ns x") (auto simp: on_node_def intro: neighbors_only_fmupd)

lemma neighbors_only_dom: "neighbors_only ns ns' \<Longrightarrow> fmdom' ns' = fmdom' ns"
proof -
  assume a: "neighbors_only ns ns'"
  have "fmlookup ns' x = None \<longleftrightarrow> fmlookup ns x = None" for x
    using a [unfolded neighbors_only_def, rule_format, of x]
    by (cases "fmlookup ns x"; cases "fmlookup ns' x") auto
  then show ?thesis by (auto simp: fmdom'_def dom_def)
qed

lemma pruneConnections_Some:
  "0 \<le> m \<Longrightarrow> \<exists>pruned. pruneConnections ns nodeVector neighbors m = Some pruned"
  by (simp add: pruneConnections_def)

lemma connect_one_ok:
  assumes "0 \<le> mLayer"
  shows "\<exists>ns'. connect_one ns v l mLayer n = Some ns' \<and> neighbors_only ns ns'"
proof -
  define ns1 where
    "ns1 = on_node ns (v_ID v) (\<lambda>node. set_layer l (n_Neighbors node ! nat l @ [d_ID n]) node)"
  have n1: "neighbors_only ns ns1" unfolding ns1_def by (rule neighbors_only_on_node')
  show ?thesis
  proof (cases "fmlookup ns1 (d_ID n)")
    case None
    with n1 show ?thesis by (simp add: connect_one_def Let_def ns1_def)
  next
    case (Some neighbor)
    show ?thesis
    proof (cases "l < int (length (n_Neighbors neighbor))")
      case False
      with Some n1 show ?thesis by (simp add: connect_one_def Let_def ns1_def)
    next
      case True
      define appended where "appended = n_Neighbors neighbor ! nat l @ [v_ID v]"
      define ns2 where "ns2 = fmupd (d_ID n) (set_layer l appended neighbor) ns1"
      have n2: "neighbors_only ns1 ns2"
        unfolding ns2_def using Some by (rule neighbors_only_fmupd) (rule same_data_set_layer)
      have n12: "neighbors_only ns ns2" using n1 n2 by (rule neighbors_only_trans)
      show ?thesis
      proof (cases "int (length appended) > mLayer")
        case False
        with Some True n12 show ?thesis
          by (simp add: connect_one_def Let_def ns1_def ns2_def appended_def)
      next
        case big: True
        obtain pruned where p: "pruneConnections ns2 (n_Vector neighbor) appended mLayer = Some pruned"
          using pruneConnections_Some [OF assms] by blast
        have "neighbors_only ns1 (fmupd (d_ID n) (set_layer l pruned neighbor) ns2)"
          unfolding ns2_def using Some by (auto simp: neighbors_only_def option.rel_refl)
        with n1 have "neighbors_only ns (fmupd (d_ID n) (set_layer l pruned neighbor) ns2)"
          by (rule neighbors_only_trans)
        with Some True big p show ?thesis
          by (simp add: connect_one_def Let_def ns1_def ns2_def appended_def)
      qed
    qed
  qed
qed

lemma connect_ok:
  assumes "0 \<le> mLayer"
  shows "\<exists>ns'. connect ns v l mLayer selected = Some ns' \<and> neighbors_only ns ns'"
proof (induction selected arbitrary: ns)
  case Nil
  then show ?case by simp
next
  case (Cons n rest)
  obtain ns1 where 1: "connect_one ns v l mLayer n = Some ns1" "neighbors_only ns ns1"
    using connect_one_ok [OF assms] by blast
  obtain ns2 where 2: "connect ns1 v l mLayer rest = Some ns2" "neighbors_only ns1 ns2"
    using Cons [of ns1] by blast
  from 1 2 show ?case by (auto intro: neighbors_only_trans)
qed

lemma selectNeighbors_Some:
  "0 \<le> m \<Longrightarrow> \<exists>selected. selectNeighbors query candidates m = Some selected"
  by (simp add: selectNeighbors_def)

lemma insert_layers_ok:
  assumes "0 \<le> c_M cfg" "0 \<le> c_MMax cfg"
  shows "\<exists>ns'. insert_layers ns v cfg l entryID = Some ns' \<and> neighbors_only ns ns'"
proof (induction "nat (l + 1)" arbitrary: ns l entryID)
  case 0
  then have "\<not> l \<ge> 0" by simp
  then show ?case by (subst insert_layers.simps) simp
next
  case (Suc k)
  then have l: "l \<ge> 0" by linarith
  define mLayer where "mLayer = (if l = 0 then c_MMax cfg else c_M cfg)"
  have m: "0 \<le> mLayer" using assms by (simp add: mLayer_def)
  obtain neighbors where sl:
    "searchLayer ns (v_Embedding v) entryID (c_EfConstruction cfg) l = Some neighbors"
    using searchLayer_Some [OF l] by blast
  obtain selected where sel: "selectNeighbors (v_Embedding v) neighbors mLayer = Some selected"
    using selectNeighbors_Some [OF m] by blast
  define ns0 where "ns0 = on_node ns (v_ID v) (set_layer l [])"
  obtain ns1 where c: "connect ns0 v l mLayer selected = Some ns1" "neighbors_only ns0 ns1"
    using connect_ok [OF m] by blast
  have n01: "neighbors_only ns ns1"
    using neighbors_only_on_node c(2) unfolding ns0_def by (rule neighbors_only_trans)
  define e' where "e' = (if length selected > 0 then d_ID (selected ! 0) else entryID)"
  have "k = nat (l - 1 + 1)" using Suc.hyps(2) by linarith
  then obtain ns2 where r: "insert_layers ns1 v cfg (l - 1) e' = Some ns2" "neighbors_only ns1 ns2"
    using Suc.hyps(1) by blast
  have "insert_layers ns v cfg l entryID = Some ns2"
    using l sl sel c(1) r(1)
    by (subst insert_layers.simps) (simp add: Let_def mLayer_def ns0_def e'_def)
  moreover have "neighbors_only ns ns2" using n01 r(2) by (rule neighbors_only_trans)
  ultimately show ?case by blast
qed


text \<open>
  The part of the index invariant that keeps \<^verbatim>\<open>Insert\<close> and \<^verbatim>\<open>Search\<close> from
  panicking: the caps are not negative and a set entry point names a stored node.
\<close>

definition hnsw_ok :: "HNSWIndex \<Rightarrow> bool" where
  "hnsw_ok idx =
     (0 \<le> c_M (config idx) \<and> 0 \<le> c_MMax (config idx)
      \<and> (entryPoint idx = [] \<or> entryPoint idx \<in> fmdom' (nodes idx)))"

definition new_node :: "Vector \<Rightarrow> int \<Rightarrow> HNSWNode" where
  "new_node v level =
     \<lparr>n_ID = v_ID v, n_Vector = v_Embedding v, n_Metadata = v_Metadata v,
      n_Neighbors = replicate (nat (level + 1)) [], n_Layer = level\<rparr>"

lemma HNSW_Insert_ok:
  assumes "hnsw_ok idx"
  shows "\<exists>idx'. HNSW_Insert idx v = Some (idx', None) \<and> hnsw_ok idx'
           \<and> config idx' = config idx
           \<and> neighbors_only (fmupd (v_ID v) (new_node v (fst (randomLevel idx))) (nodes idx))
                (nodes idx')"
proof -
  obtain level rng' where rl: "randomLevel idx = (level, rng')" by (cases "randomLevel idx")
  define ns where "ns = fmupd (v_ID v) (new_node v level) (nodes idx)"
  have caps: "0 \<le> c_M (config idx)" "0 \<le> c_MMax (config idx)"
    using assms by (simp_all add: hnsw_ok_def)
  show ?thesis
  proof (cases "entryPoint idx = []")
    case True
    then have "HNSW_Insert idx v
        = Some (idx\<lparr>nodes := ns, entryPoint := v_ID v, maxLevel := level, rng := rng'\<rparr>, None)"
      by (simp add: HNSW_Insert_def rl Let_def ns_def new_node_def)
    moreover have "hnsw_ok (idx\<lparr>nodes := ns, entryPoint := v_ID v, maxLevel := level, rng := rng'\<rparr>)"
      using caps by (simp add: hnsw_ok_def ns_def)
    ultimately show ?thesis by (simp add: rl ns_def)
  next
    case False
    then have ep: "entryPoint idx \<in> fmdom' (nodes idx)" using assms by (simp add: hnsw_ok_def)
    then have "entryPoint idx \<in> fmdom' ns" by (simp add: ns_def)
    then obtain currentNode where cur: "fmlookup ns (entryPoint idx) = Some currentNode"
      by (auto simp: fmdom'_def dom_def)
    have il: "\<exists>ns'. insert_layers ns v (config idx) l e = Some ns' \<and> neighbors_only ns ns'" for l e
      by (rule insert_layers_ok [OF caps])
    have fin: "hnsw_ok (idx\<lparr>nodes := ns', rng := rng'\<rparr>)"
      "hnsw_ok (idx\<lparr>nodes := ns', entryPoint := v_ID v, maxLevel := level, rng := rng'\<rparr>)"
      if "neighbors_only ns ns'" for ns'
    proof -
      have dom: "fmdom' ns' = fmdom' ns" using that by (rule neighbors_only_dom)
      show "hnsw_ok (idx\<lparr>nodes := ns', rng := rng'\<rparr>)"
        "hnsw_ok (idx\<lparr>nodes := ns', entryPoint := v_ID v, maxLevel := level, rng := rng'\<rparr>)"
        using caps ep dom by (simp_all add: hnsw_ok_def ns_def)
    qed
    consider (lt) "level < maxLevel idx" | (eq) "level = maxLevel idx" | (gt) "level > maxLevel idx"
      by linarith
    then show ?thesis
    proof cases
      case lt
      obtain ns' where n: "insert_layers ns v (config idx) level
          (snd (descend ns (v_Embedding v) (maxLevel idx) level (currentNode, entryPoint idx)))
            = Some ns'" "neighbors_only ns ns'"
        using il by blast
      have "HNSW_Insert idx v = Some (idx\<lparr>nodes := ns', rng := rng'\<rparr>, None)"
        using False cur [unfolded ns_def] n(1) [unfolded ns_def] lt
        by (simp add: HNSW_Insert_def rl Let_def new_node_def [symmetric])
      with fin(1) [OF n(2)] n(2) show ?thesis by (simp add: rl ns_def)
    next
      case eq
      then have ne: "\<not> level < maxLevel idx" "\<not> maxLevel idx < level"
        and mn: "min level (maxLevel idx) = level" by simp_all
      obtain ns' where n: "insert_layers ns v (config idx) level (entryPoint idx) = Some ns'"
        "neighbors_only ns ns'"
        using il by blast
      have "HNSW_Insert idx v = Some (idx\<lparr>nodes := ns', rng := rng'\<rparr>, None)"
        using False cur [unfolded ns_def] n(1) [unfolded ns_def] eq
        by (simp add: HNSW_Insert_def rl Let_def new_node_def [symmetric])
      with fin(1) [OF n(2)] n(2) show ?thesis by (simp add: rl ns_def)
    next
      case gt
      obtain ns' where n: "insert_layers ns v (config idx) (maxLevel idx) (entryPoint idx) = Some ns'"
        "neighbors_only ns ns'"
        using il by blast
      have "HNSW_Insert idx v
          = Some (idx\<lparr>nodes := ns', entryPoint := v_ID v, maxLevel := level, rng := rng'\<rparr>, None)"
        using False cur [unfolded ns_def] n(1) [unfolded ns_def] gt
        by (simp add: HNSW_Insert_def rl Let_def new_node_def [symmetric])
      with fin(2) [OF n(2)] n(2) show ?thesis by (simp add: rl ns_def)
    qed
  qed
qed

lemma hnsw_ok_New: "0 \<le> c_M cfg \<Longrightarrow> 0 \<le> c_MMax cfg \<Longrightarrow> hnsw_ok (NewHNSWIndex cfg draws)"
  by (simp add: hnsw_ok_def NewHNSWIndex_def)

lemma hnsw_ok_NewHandler: "hnsw_ok (h_hnsw (NewHandler d draws))"
  by (simp add: NewHandler_def hnsw_ok_New DefaultHNSWConfig_def)

lemma HNSW_Search_Some:
  assumes "hnsw_ok idx" "0 \<le> topK"
  shows "\<exists>rs. HNSW_Search idx query topK = Some rs"
proof (cases "fcard (fmdom (nodes idx)) = 0 \<or> entryPoint idx = []")
  case True
  then show ?thesis by (auto simp: HNSW_Search_def)
next
  case False
  then have "entryPoint idx \<in> fmdom' (nodes idx)" using assms by (simp add: hnsw_ok_def)
  then obtain currentNode where cur: "fmlookup (nodes idx) (entryPoint idx) = Some currentNode"
    by (auto simp: fmdom'_def dom_def)
  have sl: "\<exists>c. searchLayer (nodes idx) query e (c_EfSearch (config idx)) 0 = Some c" for e
    using searchLayer_Some [of 0] by blast
  show ?thesis
  proof (cases "maxLevel idx > 0")
    case True
    obtain c where "searchLayer (nodes idx) query
        (snd (descend (nodes idx) query (maxLevel idx) 0 (currentNode, entryPoint idx)))
        (c_EfSearch (config idx)) 0 = Some c"
      using sl by blast
    then show ?thesis
      using False cur assms(2) True by (simp add: HNSW_Search_def)
  next
    case low: False
    obtain c where "searchLayer (nodes idx) query (entryPoint idx) (c_EfSearch (config idx)) 0 = Some c"
      using sl by blast
    then show ?thesis
      using False cur assms(2) low by (simp add: HNSW_Search_def)
  qed
qed

section \<open>Sequences of inserts and small HNSW indexes\<close>

text \<open>
  The state after a sequence of \<^verbatim>\<open>Insert\<close> calls (\<open>None\<close> when one of them panics),
  and \<open>neighbors(a, l)\<close>: the list \<^verbatim>\<open>idx.nodes[a].Neighbors[l]\<close>, empty when the node
  or the layer does not exist.
\<close>

fun HNSW_Inserts :: "HNSWIndex \<Rightarrow> Vector list \<Rightarrow> HNSWIndex option" where
  "HNSW_Inserts idx [] = Some idx"
| "HNSW_Inserts idx (v # vs) =
     (case HNSW_Insert idx v of None \<Rightarrow> None | Some (idx', err) \<Rightarrow> HNSW_Inserts idx' vs)"

definition neighbors :: "HNSWIndex \<Rightarrow> string \<Rightarrow> nat \<Rightarrow> string list" where
  "neighbors idx a l =
     (case fmlookup (nodes idx) a of
        None \<Rightarrow> []
      | Some n \<Rightarrow> if l < length (n_Neighbors n) then n_Neighbors n ! l else [])"

text \<open>
  Configurations with \<^verbatim>\<open>ML = 0\<close>, under which every node is drawn at level 0, and
  with \<^verbatim>\<open>M = MMax = m\<close>; vectors on the two axes of the plane.
\<close>

definition level0_config :: "int \<Rightarrow> HNSWConfig" where
  "level0_config m =
     \<lparr>c_M = m, c_MMax = m, c_EfConstruction = 200, c_EfSearch = 100, c_ML = Fin 0,
      c_Dimensions = 2\<rparr>"

definition vec_x :: Vector where
  "vec_x = \<lparr>v_ID = ''x'', v_Embedding = unit_x, v_Metadata = no_meta\<rparr>"

definition vec_y :: Vector where
  "vec_y = \<lparr>v_ID = ''y'', v_Embedding = unit_y, v_Metadata = no_meta\<rparr>"

definition vec_z :: Vector where
  "vec_z = \<lparr>v_ID = ''z'', v_Embedding = unit_x, v_Metadata = no_meta\<rparr>"

definition x_index :: HNSWIndex where
  "x_index =
     \<lparr>nodes = fmupd ''x'' (new_node vec_x 0) fmempty, entryPoint = ''x'', maxLevel = 0,
      config = level0_config 1, rng = (\<lambda>_. 0)\<rparr>"

lemmas hnsw_eval = HNSW_Insert_def randomLevel_def randomLevel_loop.simps NewHNSWIndex_def
  insert_layers.simps searchLayer_def searchLayer_loop.simps selectNeighbors_def
  pruneConnections_def neighbor_dists_def sort_outer.simps sort_inner.simps connect_one_def
  on_node_def set_layer_def heap_Push_def heap_Pop_def up.simps down.simps Swap_def
  distanceHeap_Less_def descend.simps greedy_layer.simps greedy_round_def Let_def dist_evals
  level0_config_def neighbors_def new_node_def

lemma Insert_x: "HNSW_Insert (NewHNSWIndex (level0_config 1) (\<lambda>_. 0)) vec_x = Some (x_index, None)"
  by (simp add: hnsw_eval vec_x_def x_index_def)

lemma hnsw_ok_x_index: "hnsw_ok x_index"
  by (simp add: hnsw_ok_def x_index_def level0_config_def)

section \<open>Inserting under an empty id (C5)\<close>

definition empty_id_request :: InsertRequest where
  "empty_id_request = \<lparr>q_ID = [], q_Embedding = unit_x, q_Metadata = no_meta\<rparr>"

lemma neighbors_only_lookup:
  assumes "neighbors_only ns ns'" "fmlookup ns x = Some a"
  shows "\<exists>b. fmlookup ns' x = Some b \<and> same_data a b"
  using assms(1) [unfolded neighbors_only_def, rule_format, of x] assms(2)
  by (cases "fmlookup ns' x") auto

lemma HandleInsert_accepts:
  assumes "hnsw_ok (h_hnsw h)" "int (length (q_Embedding req)) = h_dimensions h"
  shows "\<exists>h'. HandleInsert h ''POST'' (Decoded req)
              = Some (JSON 200 \<lparr>Success = True, Message = ''Vector inserted successfully''\<rparr>, h')
           \<and> hnsw_ok (h_hnsw h')
           \<and> vectors (h_bruteForce h')
                = vectors (h_bruteForce h)
                    @ [\<lparr>v_ID = q_ID req, v_Embedding = q_Embedding req, v_Metadata = q_Metadata req\<rparr>]
           \<and> (\<exists>n. fmlookup (nodes (h_hnsw h')) (q_ID req) = Some n
                  \<and> n_Vector n = q_Embedding req \<and> n_Metadata n = q_Metadata req)
           \<and> fmdom' (nodes (h_hnsw h')) = insert (q_ID req) (fmdom' (nodes (h_hnsw h)))"
proof -
  define v where "v = \<lparr>v_ID = q_ID req, v_Embedding = q_Embedding req, v_Metadata = q_Metadata req\<rparr>"
  obtain hn where hn: "HNSW_Insert (h_hnsw h) v = Some (hn, None)" "hnsw_ok hn"
    "neighbors_only (fmupd (v_ID v) (new_node v (fst (randomLevel (h_hnsw h)))) (nodes (h_hnsw h)))
       (nodes hn)"
    using HNSW_Insert_ok [OF assms(1), of v] by blast
  define h' where "h' = h\<lparr>h_bruteForce := (h_bruteForce h)\<lparr>vectors := vectors (h_bruteForce h) @ [v]\<rparr>,
                           h_hnsw := hn\<rparr>"
  have "HandleInsert h ''POST'' (Decoded req)
      = Some (JSON 200 \<lparr>Success = True, Message = ''Vector inserted successfully''\<rparr>, h')"
    using assms(2) hn(1)
    by (simp add: HandleInsert_def BruteForce_Insert_def Let_def v_def [symmetric] h'_def)
  moreover have "hnsw_ok (h_hnsw h')" using hn(2) by (simp add: h'_def)
  moreover have "vectors (h_bruteForce h') = vectors (h_bruteForce h) @ [v]" by (simp add: h'_def)
  moreover have "\<exists>n. fmlookup (nodes (h_hnsw h')) (q_ID req) = Some n
                  \<and> n_Vector n = q_Embedding req \<and> n_Metadata n = q_Metadata req"
  proof -
    obtain n where "fmlookup (nodes hn) (v_ID v) = Some n"
      "same_data (new_node v (fst (randomLevel (h_hnsw h)))) n"
      using neighbors_only_lookup [OF hn(3), of "v_ID v"] by auto
    then show ?thesis by (auto simp: h'_def v_def same_data_def new_node_def)
  qed
  moreover have "fmdom' (nodes (h_hnsw h')) = insert (q_ID req) (fmdom' (nodes (h_hnsw h)))"
    using neighbors_only_dom [OF hn(3)] by (simp add: h'_def v_def)
  ultimately show ?thesis by (simp add: v_def)
qed

lemma offer_one: "offer 1 [] r = Some [r]"
  by (simp add: offer_def heap_Push_def up.simps)

lemma heap_Pop_one: "heap_Pop Less [r] = Some (r, [])"
  by (simp add: heap_Pop_def Swap_def down.simps)

lemma empty_id_first_insert:
  assumes "int (length (q_Embedding req)) = d" "q_ID req = []"
  shows "\<exists>h'. HandleInsert (NewHandler d draws) ''POST'' (Decoded req)
              = Some (JSON 200 \<lparr>Success = True, Message = ''Vector inserted successfully''\<rparr>, h')
           \<and> BruteForce_Count (h_bruteForce h') = 1
           \<and> HNSW_Count (h_hnsw h') = 1
           \<and> entryPoint (h_hnsw h') = []
           \<and> HNSW_Search (h_hnsw h') query topK = Some []
           \<and> map r_ID (the (BruteForce_Search (h_bruteForce h') query 1)) = [[]]"
proof -
  define v where "v = \<lparr>v_ID = q_ID req, v_Embedding = q_Embedding req, v_Metadata = q_Metadata req\<rparr>"
  define idx where "idx = NewHNSWIndex (DefaultHNSWConfig d) draws"
  obtain level rng' where rl: "randomLevel idx = (level, rng')" by (cases "randomLevel idx")
  define hn where "hn = idx\<lparr>nodes := fmupd [] (new_node v level) fmempty, entryPoint := [],
                            maxLevel := level, rng := rng'\<rparr>"
  define h' where "h' = \<lparr>h_bruteForce = \<lparr>vectors = [v], dimensions = d\<rparr>, h_hnsw = hn,
                         h_dimensions = d\<rparr>"
  have ins: "HNSW_Insert idx v = Some (hn, None)"
    using assms(2)
    by (simp add: HNSW_Insert_def rl Let_def hn_def new_node_def v_def)
       (simp add: idx_def NewHNSWIndex_def)
  have "HandleInsert (NewHandler d draws) ''POST'' (Decoded req)
      = Some (JSON 200 \<lparr>Success = True, Message = ''Vector inserted successfully''\<rparr>, h')"
    using assms(1) ins
    by (simp add: HandleInsert_def NewHandler_def BruteForce_Insert_def Let_def
          v_def [symmetric] idx_def [symmetric] h'_def NewBruteForceIndex_def)
  moreover have "BruteForce_Count (h_bruteForce h') = 1"
    by (simp add: h'_def BruteForce_Count_def)
  moreover have "HNSW_Count (h_hnsw h') = 1"
  proof -
    have "fcard (fmdom (fmupd [] (new_node v level) fmempty)) = 1"
      by (simp add: fcard.rep_eq)
    then show ?thesis by (simp add: h'_def hn_def HNSW_Count_def)
  qed
  moreover have "entryPoint (h_hnsw h') = []" by (simp add: h'_def hn_def)
  moreover have "HNSW_Search (h_hnsw h') query topK = Some []"
    by (simp add: HNSW_Search_def h'_def hn_def)
  moreover have "map r_ID (the (BruteForce_Search (h_bruteForce h') query 1)) = [[]]"
    using assms(2)
    by (simp add: BruteForce_Search_def h'_def offer_one heap_Pop_one scored_def v_def)
  ultimately show ?thesis by (intro exI [of _ h'] conjI)
qed

text \<open>
  C5 names a guard that the code does not have: \<^verbatim>\<open>HandleInsert\<close> checks the method,
  the JSON and the length of the embedding, and never the id, and neither index looks at
  it. A request with the empty id and an embedding of the right length is answered with
  success and stored in both indexes. The HNSW index uses the empty string for
  \<open>no entry point\<close>: when the empty id comes first, the node is stored and counted, the
  entry point stays unset, and \<^verbatim>\<open>Search\<close> on the HNSW index returns nothing for every
  query, while the brute-force index returns the vector.
\<close>

theorem C5_empty_id_not_rejected:
  assumes "int (length (q_Embedding req)) = d" "q_ID req = []"
  shows "\<exists>h'. HandleInsert (NewHandler d draws) ''POST'' (Decoded req)
              = Some (JSON 200 \<lparr>Success = True, Message = ''Vector inserted successfully''\<rparr>, h')
           \<and> BruteForce_Count (h_bruteForce (NewHandler d draws)) = 0
           \<and> HNSW_Count (h_hnsw (NewHandler d draws)) = 0
           \<and> BruteForce_Count (h_bruteForce h') = 1
           \<and> HNSW_Count (h_hnsw h') = 1
           \<and> entryPoint (h_hnsw h') = []
           \<and> HNSW_Search (h_hnsw h') query topK = Some []
           \<and> map r_ID (the (BruteForce_Search (h_bruteForce h') query 1)) = [[]]"
proof -
  have z: "BruteForce_Count (h_bruteForce (NewHandler d draws)) = 0"
    "HNSW_Count (h_hnsw (NewHandler d draws)) = 0"
    by (simp_all add: BruteForce_Count_def HNSW_Count_def NewHandler_def NewBruteForceIndex_def
          NewHNSWIndex_def)
  obtain h' where h': "HandleInsert (NewHandler d draws) ''POST'' (Decoded req)
              = Some (JSON 200 \<lparr>Success = True, Message = ''Vector inserted successfully''\<rparr>, h')"
    "BruteForce_Count (h_bruteForce h') = 1" "HNSW_Count (h_hnsw h') = 1"
    "entryPoint (h_hnsw h') = []" "HNSW_Search (h_hnsw h') query topK = Some []"
    "map r_ID (the (BruteForce_Search (h_bruteForce h') query 1)) = [[]]"
    using empty_id_first_insert [OF assms, of draws query topK] by (elim exE conjE)
  with z show ?thesis by (intro exI [of _ h'] conjI)
qed

theorem C5_witness:
  "int (length (q_Embedding empty_id_request)) = 2 \<and> q_ID empty_id_request = []
   \<and> (\<exists>h'. HandleInsert (NewHandler 2 (\<lambda>_. 0)) ''POST'' (Decoded empty_id_request)
              = Some (JSON 200 \<lparr>Success = True, Message = ''Vector inserted successfully''\<rparr>, h')
           \<and> BruteForce_Count (h_bruteForce h') = 1
           \<and> HNSW_Count (h_hnsw h') = 1
           \<and> entryPoint (h_hnsw h') = []
           \<and> HNSW_Search (h_hnsw h') unit_x 1 = Some []
           \<and> map r_ID (the (BruteForce_Search (h_bruteForce h') unit_x 1)) = [[]])"
proof -
  have a: "int (length (q_Embedding empty_id_request)) = 2" "q_ID empty_id_request = []"
    by (simp_all add: empty_id_request_def)
  obtain h' where h': "HandleInsert (NewHandler 2 (\<lambda>_. 0)) ''POST'' (Decoded empty_id_request)
              = Some (JSON 200 \<lparr>Success = True, Message = ''Vector inserted successfully''\<rparr>, h')"
    "BruteForce_Count (h_bruteForce h') = 1" "HNSW_Count (h_hnsw h') = 1"
    "entryPoint (h_hnsw h') = []" "HNSW_Search (h_hnsw h') unit_x 1 = Some []"
    "map r_ID (the (BruteForce_Search (h_bruteForce h') unit_x 1)) = [[]]"
    using C5_empty_id_not_rejected [OF a, of "\<lambda>_. 0" unit_x 1] by (elim exE conjE)
  with a show ?thesis by (intro exI [of _ h'] conjI)
qed

section \<open>The dimension guard and the operations that cannot fail (C6)\<close>

definition long_request :: InsertRequest where
  "long_request =
     \<lparr>q_ID = ''v'', q_Embedding = [Fin 1, Fin 2, Fin 3, Fin 4, Fin 5], q_Metadata = no_meta\<rparr>"

text \<open>
  When the selection loop and the extraction loop return: the loop panics exactly when
  it reads the root of an empty heap, which is when a result is offered for
  \<open>k \<le> 0\<close>.
\<close>

lemma offer_Some:
  assumes "1 \<le> topK"
  shows "\<exists>h'. offer topK h r = Some h'"
proof (cases "int (length h) < topK")
  case True
  then show ?thesis by (simp add: offer_def)
next
  case False
  then obtain r0 rest where h: "h = r0 # rest" using assms by (cases h) auto
  obtain x h1 where "heap_Pop resultHeap_Less h = Some (x, h1)"
    using h heap_Pop_None [of resultHeap_Less h] by (cases "heap_Pop resultHeap_Less h") auto
  with False show ?thesis by (simp add: offer_def h)
qed

lemma offer_all_Some:
  assumes "1 \<le> topK"
  shows "\<exists>h'. offer_all topK h rs = Some h'"
proof (induction rs arbitrary: h)
  case Nil
  then show ?case by simp
next
  case (Cons r rs)
  obtain h1 where "offer topK h r = Some h1" using offer_Some [OF assms] by blast
  with Cons [of h1] show ?case by simp
qed

lemma offer_all_None: "topK \<le> 0 \<Longrightarrow> rs \<noteq> [] \<Longrightarrow> offer_all topK [] rs = None"
  by (cases rs) (simp_all add: offer_def)

lemma drain_Some: "length h = n \<Longrightarrow> \<exists>rs. drain n h acc = Some rs"
proof (induction n arbitrary: h acc)
  case 0
  then show ?case by simp
next
  case (Suc n)
  then have "h \<noteq> []" by auto
  then obtain x h1 where pop: "heap_Pop resultHeap_Less h = Some (x, h1)"
    using heap_Pop_None [of resultHeap_Less h] by (cases "heap_Pop resultHeap_Less h") auto
  have "length h1 = n" using heap_Pop_Some(2) [OF pop] Suc.prems by simp
  from Suc.IH [OF this, of "x # acc"] pop show ?case by simp
qed

lemma select_Some:
  assumes "1 \<le> topK"
  shows "\<exists>rs. (case offer_all topK [] xs of None \<Rightarrow> None | Some h \<Rightarrow> drain (length h) h [])
                = Some rs"
proof -
  obtain h where "offer_all topK [] xs = Some h" using offer_all_Some [OF assms] by blast
  moreover obtain rs where "drain (length h) h [] = Some rs" using drain_Some [OF refl] by blast
  ultimately show ?thesis by simp
qed

lemma BruteForce_Search_returns:
  "BruteForce_Search idx query topK \<noteq> None \<longleftrightarrow> vectors idx = [] \<or> 1 \<le> topK"
proof (cases "vectors idx = []")
  case True
  then show ?thesis by (simp add: BruteForce_Search_def)
next
  case False
  show ?thesis
  proof (cases "1 \<le> topK")
    case True
    then show ?thesis
      using select_Some [OF True, of "map (scored query) (vectors idx)"] False
      by (auto simp: BruteForce_Search_def)
  next
    case k: False
    then have "offer_all topK [] (map (scored query) (vectors idx)) = None"
      using False by (intro offer_all_None) simp_all
    with False k show ?thesis by (simp add: BruteForce_Search_def)
  qed
qed

lemma searchChunk_Some: "1 \<le> topK \<Longrightarrow> \<exists>rs. searchChunk query c topK = Some rs"
  unfolding searchChunk_def by (rule select_Some)

lemma searchChunk_None: "topK \<le> 0 \<Longrightarrow> c \<noteq> [] \<Longrightarrow> searchChunk query c topK = None"
  by (simp add: searchChunk_def offer_all_None)

lemma BruteForce_SearchConcurrent_returns:
  "BruteForce_SearchConcurrent idx query topK numWorkers arrival \<noteq> None
     \<longleftrightarrow> vectors idx = [] \<or> 1 \<le> topK"
proof (cases "vectors idx = []")
  case True
  then show ?thesis by (simp add: BruteForce_SearchConcurrent_def)
next
  case False
  define cs where "cs = launched_chunks idx numWorkers"
  show ?thesis
  proof (cases "1 \<le> topK")
    case True
    have "sequence_option (map (\<lambda>c. searchChunk query c topK) cs)
            = Some (map (\<lambda>c. the (searchChunk query c topK)) cs)"
    proof (rule sequence_option_map)
      fix c
      show "searchChunk query c topK \<noteq> None" using searchChunk_Some [OF True, of query c] by auto
    qed
    moreover obtain rs where "mergeResults
        (map (\<lambda>w. map (\<lambda>c. the (searchChunk query c topK)) cs ! w) arrival) topK = Some rs"
      unfolding mergeResults_def using select_Some [OF True] by blast
    ultimately show ?thesis
      using False True by (simp add: BruteForce_SearchConcurrent_def Let_def cs_def)
  next
    case k: False
    have "concat cs = vectors idx" unfolding cs_def using False by (rule launched_chunks_concat)
    then have "concat cs \<noteq> []" using False by simp
    then obtain c where c: "c \<in> set cs" "c \<noteq> []" by (auto simp: concat_eq_Nil_conv)
    then have "searchChunk query c topK = None" using k by (intro searchChunk_None) simp_all
    then have "None \<in> set (map (\<lambda>c. searchChunk query c topK) cs)"
      using c(1) by (metis (no_types, lifting) image_eqI list.set_map)
    then have "sequence_option (map (\<lambda>c. searchChunk query c topK) cs) = None"
      by (simp add: sequence_option_def)
    with False k show ?thesis by (simp add: BruteForce_SearchConcurrent_def Let_def cs_def)
  qed
qed

lemma HNSW_Search_returns:
  assumes "hnsw_ok idx"
  shows "HNSW_Search idx query topK \<noteq> None
           \<longleftrightarrow> fcard (fmdom (nodes idx)) = 0 \<or> entryPoint idx = [] \<or> 0 \<le> topK"
proof (cases "fcard (fmdom (nodes idx)) = 0 \<or> entryPoint idx = []")
  case True
  then show ?thesis by (auto simp: HNSW_Search_def)
next
  case False
  show ?thesis
  proof (cases "0 \<le> topK")
    case True
    then show ?thesis using HNSW_Search_Some [OF assms True, of query] by auto
  next
    case k: False
    then have "HNSW_Search idx query topK = None"
      using False by (auto simp: HNSW_Search_def split: option.splits)
    with False k show ?thesis by simp
  qed
qed

lemma HandleSearch_returns:
  assumes "hnsw_ok (h_hnsw h)"
  shows "\<exists>r. HandleSearch h method b arrival = Some r"
proof (cases "method = ''POST''")
  case False
  then show ?thesis by (simp add: HandleSearch_def)
next
  case post: True
  show ?thesis
  proof (cases b)
    case (InvalidJSON err)
    with post show ?thesis by (simp add: HandleSearch_def)
  next
    case (Decoded req)
    define topK where "topK = (if s_TopK req \<le> 0 then 10 else s_TopK req)"
    have k: "1 \<le> topK" "0 \<le> topK" by (simp_all add: topK_def)
    obtain r1 where r1: "BruteForce_Search (h_bruteForce h) (s_Embedding req) topK = Some r1"
      using BruteForce_Search_returns [of "h_bruteForce h" "s_Embedding req" topK] k by auto
    obtain r2 where r2: "BruteForce_SearchConcurrent (h_bruteForce h) (s_Embedding req) topK 4
                           arrival = Some r2"
      using BruteForce_SearchConcurrent_returns [of "h_bruteForce h" "s_Embedding req" topK 4 arrival]
        k by auto
    obtain r3 where r3: "HNSW_Search (h_hnsw h) (s_Embedding req) topK = Some r3"
      using HNSW_Search_Some [OF assms k(2), of "s_Embedding req"] by blast
    show ?thesis
      using post Decoded r1 r2 r3
      by (simp add: HandleSearch_def Let_def topK_def [symmetric])
  qed
qed




section \<open>Repeated searches (C9)\<close>

text \<open>
  \<^verbatim>\<open>Search\<close> takes the read lock and assigns to no field of its index, in either
  implementation: as a call on the index it returns its result and leaves the state as
  it found it.
\<close>

definition BruteForce_Search_call ::
  "BruteForceIndex \<Rightarrow> float list \<Rightarrow> int \<Rightarrow> SearchResult list option \<times> BruteForceIndex" where
  "BruteForce_Search_call idx query topK = (BruteForce_Search idx query topK, idx)"

definition HNSW_Search_call ::
  "HNSWIndex \<Rightarrow> float list \<Rightarrow> int \<Rightarrow> SearchResult list option \<times> HNSWIndex" where
  "HNSW_Search_call idx query topK = (HNSW_Search idx query topK, idx)"



section \<open>Degenerate inputs of the distance primitives (C7)\<close>

text \<open>
  C7: for equal-length non-empty vectors of which one has zero norm (all its components
  are zero), \<^verbatim>\<open>CosineSimilarity\<close> is \<open>0\<close> and \<^verbatim>\<open>CosineDistance\<close> is \<open>1\<close>,
  whatever the other vector holds; for inputs of unequal length or empty inputs,
  \<^verbatim>\<open>CosineSimilarity\<close> and \<^verbatim>\<open>DotProduct\<close> return \<open>0\<close> and \<^verbatim>\<open>L2Distance\<close>
  returns the largest \<^verbatim>\<open>float32\<close>.
\<close>

lemma float32_MaxFloat32: "float32 (Fin MaxFloat32) = Fin MaxFloat32"
proof -
  have u: "(2::real) powi (127 - int 24 + 1) = 2 ^ 104"
    by (simp add: power_int_def)
  have m: "MaxFloat32 = 16777215 * 2 ^ 104" by (simp add: MaxFloat32_def power_int_minus)
  have "round_prec 24 (-126) MaxFloat32 = MaxFloat32"
  proof (rule round_prec_exact [where e = 127 and m = 16777215])
    show "2 powi 127 \<le> \<bar>MaxFloat32\<bar>" using MaxFloat32_bounds(1) by simp
    show "\<bar>MaxFloat32\<bar> < 2 powi (127 + 1)" using MaxFloat32_bounds by simp
    show "(-126::int) \<le> 127" by simp
    show "MaxFloat32 / 2 powi (127 - int 24 + 1) = of_int 16777215"
      unfolding u m by simp
  qed
  then have "round32 MaxFloat32 = Fin MaxFloat32"
    unfolding round32_def using MaxFloat32_bounds(1) by (simp add: overflow_def)
  then show ?thesis by simp
qed

theorem C7_zero_norm_and_degenerate_inputs:
  "(length a = length b \<and> a \<noteq> [] \<and> ((\<forall>x\<in>set a. x = Fin 0) \<or> (\<forall>y\<in>set b. y = Fin 0))
      \<longrightarrow> CosineSimilarity a b = Fin 0 \<and> CosineDistance a b = Fin 1)
   \<and> (length a \<noteq> length b \<or> a = []
      \<longrightarrow> CosineSimilarity a b = Fin 0 \<and> DotProduct a b = Fin 0
          \<and> L2Distance a b = Fin MaxFloat32)"
  by (auto simp: CosineDistance_def sub32_def CosineSimilarity_zero_norm
        CosineSimilarity_degenerate DotProduct_def L2Distance_def float32_MaxFloat32
      simp del: float32.simps)

theorem C7_witness:
  "length [Fin 0, Fin 0] = length [Fin 3, Fin 4] \<and> [Fin 0, Fin 0] \<noteq> []
   \<and> ((\<forall>x\<in>set [Fin 0, Fin 0]. x = Fin 0) \<or> (\<forall>y\<in>set [Fin 3, Fin 4]. y = Fin 0))
   \<and> CosineSimilarity [Fin 0, Fin 0] [Fin 3, Fin 4] = Fin 0
   \<and> CosineDistance [Fin 0, Fin 0] [Fin 3, Fin 4] = Fin 1
   \<and> length [Fin 1] \<noteq> length [Fin 3, Fin 4]
   \<and> CosineSimilarity [Fin 1] [Fin 3, Fin 4] = Fin 0 \<and> DotProduct [Fin 1] [Fin 3, Fin 4] = Fin 0
   \<and> L2Distance [Fin 1] [Fin 3, Fin 4] = Fin MaxFloat32"
  using C7_zero_norm_and_degenerate_inputs [of "[Fin 0, Fin 0]" "[Fin 3, Fin 4]"]
    C7_zero_norm_and_degenerate_inputs [of "[Fin 1]" "[Fin 3, Fin 4]"]
  by simp

section \<open>The range of the scores (C8)\<close>

text \<open>
  C8 asks every returned score to lie in \<open>[-1, 1]\<close>, and the comment of
  \<^verbatim>\<open>CosineSimilarity\<close> promises a value between \<open>-1\<close> and \<open>1\<close>. The quotient is
  computed in \<^verbatim>\<open>float32\<close> from rounded square roots, and nothing clamps it: for the
  stored vector \<open>(1, 1)\<close> and the query \<open>(1, 1)\<close> both squared norms and the dot
  product are \<open>2\<close>, the rounded root is \<open>11863283 / 2^23\<close>, the rounded product of
  the two roots is \<open>2 - 2^-23\<close>, and \<open>2 / (2 - 2^-23)\<close> rounds to \<open>1 + 2^-23\<close>.
  \<^verbatim>\<open>Search\<close> returns that score.
\<close>

definition diagonal_index :: BruteForceIndex where
  "diagonal_index =
     \<lparr>vectors = [\<lparr>v_ID = ''d'', v_Embedding = [Fin 1, Fin 1], v_Metadata = no_meta\<rparr>],
      dimensions = 2\<rparr>"

theorem C8_score_above_one:
  "BruteForce_Search diagonal_index [Fin 1, Fin 1] 1
     = Some [\<lparr>r_ID = ''d'', r_Score = Fin (8388609 / 8388608), r_Metadata = no_meta\<rparr>]"
  by (simp add: BruteForce_Search_def diagonal_index_def offer_one heap_Pop_one scored_def cos11)

theorem C8_witness:
  "\<exists>r. BruteForce_Search diagonal_index [Fin 1, Fin 1] 1 = Some [r] \<and> fless (Fin 1) (r_Score r)
       \<and> Fin 1 < r_Score r"
  using C8_score_above_one by simp


end
